theory Spec2Isabelle
  imports Main "HOL-Library.Sublist"
begin

section \<open>Python strings\<close>

text \<open>
  A Python \<open>str\<close> is a sequence of Unicode code points; it is modelled as a list of
  natural numbers, one per code point. \<open>str\<close> turns an ASCII literal into such a list.
\<close>

type_synonym pystr = "nat list"

definition str :: "string \<Rightarrow> pystr" where
  "str s = map of_char s"

text \<open>
  The code points for which \<open>str.isspace\<close> holds; the regular expression class
  \<open>\s\<close> of a \<open>str\<close> pattern matches exactly these.
\<close>

definition isspace :: "nat \<Rightarrow> bool" where
  "isspace c =
     (c \<in> set [9, 10, 11, 12, 13, 28, 29, 30, 31, 32, 133, 160, 5760,
                8232, 8233, 8239, 8287, 12288]
      \<or> (8192 \<le> c \<and> c \<le> 8202))"

text \<open>The line boundaries of \<open>str.splitlines\<close>; CR LF counts as one boundary.\<close>

definition is_linebreak :: "nat \<Rightarrow> bool" where
  "is_linebreak c = (c \<in> set [10, 11, 12, 13, 28, 29, 30, 133, 8232, 8233])"

text \<open>
  \<open>splitlines_from cur rest\<close>: \<open>cur\<close> is the line read so far. A boundary ends
  the current line, also an empty one; what is left at the end of the text is a line
  only if it is not empty.
\<close>

fun splitlines_from :: "pystr \<Rightarrow> pystr \<Rightarrow> pystr list" where
  "splitlines_from cur [] = (if cur = [] then [] else [cur])"
| "splitlines_from cur (c # cs) =
     (if \<not> is_linebreak c then splitlines_from (cur @ [c]) cs
      else if c = 13 \<and> cs \<noteq> [] \<and> hd cs = 10 then cur # splitlines_from [] (tl cs)
      else cur # splitlines_from [] cs)"

definition splitlines :: "pystr \<Rightarrow> pystr list" where
  "splitlines text = splitlines_from [] text"

text \<open>\<open>'\n'.join(lines)\<close>\<close>

fun join_nl :: "pystr list \<Rightarrow> pystr" where
  "join_nl [] = []"
| "join_nl [x] = x"
| "join_nl (x # y # ys) = x @ [10] @ join_nl (y # ys)"

section \<open>generate-recipe.py: the block-replacement helper\<close>

text \<open>
  \<open>re.match(r'^(\s+)%s' % pattern, line)\<close> for a pattern without regular-expression
  metacharacters, as at the three call sites (\<open>__EXTRA_ROOT_SHELL_CMDS__\<close>,
  \<open>__EXTRA_CHROOT_SHELL_CMDS__\<close>, \<open>__BACKPORTS__\<close>). The group \<open>\s+\<close> is greedy: it
  first takes the whole run of leading whitespace and gives characters back one at a
  time, down to one, until the pattern follows. The result is group 1.
\<close>

fun match_indent_upto :: "nat \<Rightarrow> pystr \<Rightarrow> pystr \<Rightarrow> pystr option" where
  "match_indent_upto 0 pattern line = None"
| "match_indent_upto (Suc k) pattern line =
     (if prefix pattern (drop (Suc k) line) then Some (take (Suc k) line)
      else match_indent_upto k pattern line)"

definition re_match_indent :: "pystr \<Rightarrow> pystr \<Rightarrow> pystr option" where
  "re_match_indent pattern line =
     match_indent_upto (length (takeWhile isspace line)) pattern line"

text \<open>\<open>del lines[i]\<close> and \<open>lines.insert(i, x)\<close>\<close>

definition list_del :: "'a list \<Rightarrow> nat \<Rightarrow> 'a list" where
  "list_del xs i = take i xs @ drop (Suc i) xs"

definition list_insert :: "'a list \<Rightarrow> nat \<Rightarrow> 'a \<Rightarrow> 'a list" where
  "list_insert xs i x = take i xs @ [x] @ drop i xs"

text \<open>The inner loop \<open>for r in replacement: lines.insert(i, indent + r); i = i + 1\<close>\<close>

fun insert_replacement :: "pystr list \<Rightarrow> nat \<Rightarrow> pystr \<Rightarrow> pystr list \<Rightarrow> pystr list" where
  "insert_replacement lines i indent [] = lines"
| "insert_replacement lines i indent (r # rs) =
     insert_replacement (list_insert lines i (indent @ r)) (Suc i) indent rs"

text \<open>
  The outer loop \<open>for i, line in enumerate(lines)\<close>: \<open>todo\<close> is the part of
  \<open>lines\<close> from index \<open>i\<close> on. The first matching line is replaced and the loop
  is left (\<open>break\<close>).
\<close>

fun align_lines_from :: "pystr list \<Rightarrow> nat \<Rightarrow> pystr list \<Rightarrow> pystr \<Rightarrow> pystr list \<Rightarrow> pystr list" where
  "align_lines_from lines i [] pattern replacement = lines"
| "align_lines_from lines i (line # todo) pattern replacement =
     (case re_match_indent pattern line of
        Some indent \<Rightarrow> insert_replacement (list_del lines i) i indent replacement
      | None \<Rightarrow> align_lines_from lines (Suc i) todo pattern replacement)"

definition align_lines :: "pystr list \<Rightarrow> pystr \<Rightarrow> pystr list \<Rightarrow> pystr list" where
  "align_lines lines pattern replacement = align_lines_from lines 0 lines pattern replacement"

definition align_replace :: "pystr \<Rightarrow> pystr \<Rightarrow> pystr list \<Rightarrow> pystr" where
  "align_replace text pattern replacement =
     join_nl (align_lines (splitlines text) pattern replacement) @ [10]"

text \<open>
  The end of the script: the lines of the substituted text for which neither
  \<open>re.match(r'^\s+$', x)\<close> nor \<open>re.match(r'^\s+-\s*$', x)\<close> holds are joined and
  written, with a final newline.
\<close>

definition re_match_blank :: "pystr \<Rightarrow> bool" where
  "re_match_blank x = (x \<noteq> [] \<and> list_all isspace x)"

definition re_match_empty_item :: "pystr \<Rightarrow> bool" where
  "re_match_empty_item x =
     (takeWhile isspace x \<noteq> [] \<and>
      (case dropWhile isspace x of
         [] \<Rightarrow> False
       | c # rest \<Rightarrow> c = 45 \<and> list_all isspace rest))"

definition filtered :: "pystr \<Rightarrow> pystr list" where
  "filtered out_text =
     filter (\<lambda>x. \<not> re_match_blank x \<and> \<not> re_match_empty_item x) (splitlines out_text)"

definition written :: "pystr \<Rightarrow> pystr" where
  "written out_text = join_nl (filtered out_text) @ [10]"

text \<open>
  The words of the specification, for comparison with the code: a line is blank when it
  holds nothing but whitespace; the placeholder is preceded by whitespace on a line when
  the line is one or more whitespace characters followed by the placeholder; an
  indented dash is one or more whitespace characters, a dash, and whitespace or nothing
  after it.
\<close>

definition blank_line :: "pystr \<Rightarrow> bool" where
  "blank_line x = list_all isspace x"

definition indented_placeholder :: "pystr \<Rightarrow> pystr \<Rightarrow> bool" where
  "indented_placeholder pattern line =
     list_ex (\<lambda>n. list_all isspace (take n line) \<and> prefix pattern (drop n line))
       [1 ..< Suc (length line)]"

definition indented_dash :: "pystr \<Rightarrow> bool" where
  "indented_dash x =
     list_ex (\<lambda>n. list_all isspace (take n x) \<and>
                 (case drop n x of [] \<Rightarrow> False | c # rest \<Rightarrow> c = 45 \<and> list_all isspace rest))
       [1 ..< Suc (length x)]"

section \<open>netbox\_init.py: helper functions\<close>

subsection \<open>Dictionaries\<close>

text \<open>
  A Python \<open>dict\<close> keeps its keys in insertion order: it is modelled as an association
  list with distinct keys. \<open>dict_set d k v\<close> is \<open>d[k] = v\<close> (a key that is present
  keeps its place), \<open>dict_of items\<close> is \<open>{k: v for k, v in items}\<close>.
\<close>

fun dict_set :: "('k \<times> 'v) list \<Rightarrow> 'k \<Rightarrow> 'v \<Rightarrow> ('k \<times> 'v) list" where
  "dict_set [] k v = [(k, v)]"
| "dict_set ((k', v') # d) k v = (if k' = k then (k', v) # d else (k', v') # dict_set d k v)"

definition dict_of :: "('k \<times> 'v) list \<Rightarrow> ('k \<times> 'v) list" where
  "dict_of items = foldl (\<lambda>d (k, v). dict_set d k v) [] items"

definition dict_get :: "('k \<times> 'v) list \<Rightarrow> 'k \<Rightarrow> 'v option" where
  "dict_get d k = map_of d k"

definition dict_has :: "('k \<times> 'v) list \<Rightarrow> 'k \<Rightarrow> bool" where
  "dict_has d k = (k \<in> set (map fst d))"

text \<open>
  \<open>min_hash_value_by_value\<close>: the items are sorted by value (\<open>sorted\<close> is stable, as
  \<open>sort_key\<close> is), put into a new dictionary, and the first of its values is returned,
  or \<open>None\<close> when there is none.
\<close>

definition min_hash_value_by_value :: "('k \<times> 'v::linorder) list \<Rightarrow> 'v option" where
  "min_hash_value_by_value x =
     (case map snd (dict_of (sort_key snd x)) of [] \<Rightarrow> None | v # _ \<Rightarrow> Some v)"

subsection \<open>Addresses\<close>

text \<open>
  \<open>str.split(sep)\<close> for a separator of one character: there is always at least one
  part.
\<close>

fun split_on :: "nat \<Rightarrow> pystr \<Rightarrow> pystr list" where
  "split_on sep [] = [[]]"
| "split_on sep (c # cs) =
     (if c = sep then [] # split_on sep cs
      else (case split_on sep cs of [] \<Rightarrow> [[c]] | p # ps \<Rightarrow> (c # p) # ps))"

text \<open>
  \<open>str.lower()\<close> on the ASCII letters; other code points are left as they are. No code
  point outside ASCII has a lower-case form that holds a hexadecimal digit, a colon, a
  hyphen or a newline, so the match of the MAC pattern below is not affected.
\<close>

definition lower_char :: "nat \<Rightarrow> nat" where
  "lower_char c = (if 65 \<le> c \<and> c \<le> 90 then c + 32 else c)"

definition lower :: "pystr \<Rightarrow> pystr" where
  "lower s = map lower_char s"

definition is_digit :: "nat \<Rightarrow> bool" where
  "is_digit c = (48 \<le> c \<and> c \<le> 57)"

definition is_hexdigit :: "nat \<Rightarrow> bool" where
  "is_hexdigit c = (is_digit c \<or> (97 \<le> c \<and> c \<le> 102) \<or> (65 \<le> c \<and> c \<le> 70))"

definition digit_value :: "nat \<Rightarrow> int" where
  "digit_value c = (if is_digit c then int c - 48 else if 97 \<le> c then int c - 87 else int c - 55)"

definition int_of_digits :: "int \<Rightarrow> pystr \<Rightarrow> int" where
  "int_of_digits base s = foldl (\<lambda>a c. base * a + digit_value c) 0 s"

text \<open>
  The standard library's \<open>ipaddress\<close> module on strings, as in CPython 3.10 and later.
  \<open>IPv4Address._parse_octet\<close>: a non-empty run of at most three ASCII digits, without a
  leading zero unless it is \<open>0\<close>, of value at most 255.
\<close>

definition parse_octet :: "pystr \<Rightarrow> int option" where
  "parse_octet octet_str =
     (if octet_str = [] then None
      else if \<not> list_all is_digit octet_str then None
      else if length octet_str > 3 then None
      else if octet_str \<noteq> [48] \<and> hd octet_str = 48 then None
      else if int_of_digits 10 octet_str > 255 then None
      else Some (int_of_digits 10 octet_str))"

text \<open>\<open>IPv4Address(address)\<close>: \<open>None\<close> stands for \<open>AddressValueError\<close>.\<close>

definition IPv4Address :: "pystr \<Rightarrow> int option" where
  "IPv4Address address =
     (if 47 \<in> set address then None
      else if address = [] then None
      else let octets = split_on 46 address in
        if length octets \<noteq> 4 then None
        else map_option (foldl (\<lambda>a n. 256 * a + n) 0) (those (map parse_octet octets)))"

text \<open>\<open>'%x' % n\<close> for \<open>n < 65536\<close>\<close>

definition hex_digit :: "int \<Rightarrow> nat" where
  "hex_digit d = (if d < 10 then nat (48 + d) else nat (87 + d))"

definition hex_str :: "int \<Rightarrow> pystr" where
  "hex_str n =
     (case dropWhile (\<lambda>d. d = 0) [n div 4096 mod 16, n div 256 mod 16, n div 16 mod 16] of
        ds \<Rightarrow> map hex_digit (ds @ [n mod 16]))"

text \<open>\<open>IPv6Address._parse_hextet\<close>; \<open>int('', 16)\<close> raises.\<close>

definition parse_hextet :: "pystr \<Rightarrow> int option" where
  "parse_hextet hextet_str =
     (if \<not> list_all is_hexdigit hextet_str then None
      else if length hextet_str > 4 then None
      else if hextet_str = [] then None
      else Some (int_of_digits 16 hextet_str))"

text \<open>
  \<open>IPv6Address._split_scope_id\<close>: the address is what stands before the first
  \<open>%\<close>; a \<open>%\<close> must be followed by a scope id without another \<open>%\<close>.
\<close>

definition split_scope_id :: "pystr \<Rightarrow> pystr option" where
  "split_scope_id ip_str =
     (if 37 \<notin> set ip_str then Some ip_str
      else let scope_id = tl (dropWhile (\<lambda>c. c \<noteq> 37) ip_str) in
        if scope_id = [] \<or> 37 \<in> set scope_id then None
        else Some (takeWhile (\<lambda>c. c \<noteq> 37) ip_str))"

text \<open>
  \<open>IPv6Address._ip_int_from_string\<close>. An IPv4 suffix is turned into two hextets;
  \<open>skips\<close> are the indices, end points apart, of the empty parts (the place of
  \<open>::\<close>), of which there may be one.
\<close>

definition ipv6_parts :: "pystr \<Rightarrow> pystr list option" where
  "ipv6_parts ip_str =
     (if ip_str = [] then None
      else let parts = split_on 58 ip_str in
        if length parts < 3 then None
        else if 46 \<in> set (last parts) then
          (case IPv4Address (last parts) of
             None \<Rightarrow> None
           | Some ipv4_int \<Rightarrow>
               Some (butlast parts @ [hex_str (ipv4_int div 65536 mod 65536),
                                      hex_str (ipv4_int mod 65536)]))
        else Some parts)"

definition ipv6_hextets :: "pystr list \<Rightarrow> pystr list option" where
  "ipv6_hextets parts =
     (if length parts > 9 then None
      else (case filter (\<lambda>i. parts ! i = []) [1 ..< length parts - 1] of
          [] \<Rightarrow>
            if length parts \<noteq> 8 then None
            else if hd parts = [] then None
            else if last parts = [] then None
            else Some parts
        | [skip_index] \<Rightarrow>
            let parts_hi = (if hd parts = [] then skip_index - 1 else skip_index);
                parts_lo = (if last parts = [] then length parts - skip_index - 2
                            else length parts - skip_index - 1)
            in
              if hd parts = [] \<and> parts_hi \<noteq> 0 then None
              else if last parts = [] \<and> parts_lo \<noteq> 0 then None
              else if 8 < Suc (parts_hi + parts_lo) then None
              else Some (take parts_hi parts
                         @ replicate (8 - (parts_hi + parts_lo)) [48]
                         @ drop (length parts - parts_lo) parts)
        | _ \<Rightarrow> None))"

definition IPv6Address :: "pystr \<Rightarrow> int option" where
  "IPv6Address address =
     (if 47 \<in> set address then None
      else (case split_scope_id address of
          None \<Rightarrow> None
        | Some addr_str \<Rightarrow>
            (case ipv6_parts addr_str of
               None \<Rightarrow> None
             | Some parts \<Rightarrow>
                 (case ipv6_hextets parts of
                    None \<Rightarrow> None
                  | Some hextets \<Rightarrow>
                      map_option (foldl (\<lambda>a n. 65536 * a + n) 0)
                        (those (map parse_hextet hextets))))))"

text \<open>
  \<open>is_ip_address\<close>, \<open>is_ip_v4_address\<close>, \<open>is_ip_v6_address\<close>: whether the constructor
  returns. \<open>ipaddress.ip_address\<close> tries \<open>IPv4Address\<close>, then \<open>IPv6Address\<close>.
\<close>

definition is_ip_v4_address :: "pystr \<Rightarrow> bool" where
  "is_ip_v4_address x = (IPv4Address x \<noteq> None)"

definition is_ip_v6_address :: "pystr \<Rightarrow> bool" where
  "is_ip_v6_address x = (IPv6Address x \<noteq> None)"

definition is_ip_address :: "pystr \<Rightarrow> bool" where
  "is_ip_address x = (IPv4Address x \<noteq> None \<or> IPv6Address x \<noteq> None)"

text \<open>
  \<open>ipaddress.ip_network(x)\<close> with \<open>strict=True\<close>. The mask of an IPv4 network is a
  prefix length of ASCII digits, at most 32, or else a netmask or a hostmask in
  dotted form; the mask of an IPv6 network is a prefix length, at most 128; without a
  slash the network is the single address. The address must have no bit set beyond
  the prefix. \<open>count_zero_bits\<close> is \<open>_count_righthand_zero_bits\<close>,
  \<open>prefix_from_ip_int\<close> is \<open>_prefix_from_ip_int\<close> on 32 bits.
\<close>

fun count_zero_bits :: "nat \<Rightarrow> int \<Rightarrow> nat" where
  "count_zero_bits 0 number = 0"
| "count_zero_bits (Suc bits) number =
     (if number mod 2 = 0 then Suc (count_zero_bits bits (number div 2)) else 0)"

definition prefix_from_ip_int :: "int \<Rightarrow> nat option" where
  "prefix_from_ip_int ip_int =
     (let trailing_zeroes = count_zero_bits 32 ip_int;
          prefixlen = 32 - trailing_zeroes
      in if ip_int div 2 ^ trailing_zeroes = 2 ^ prefixlen - 1 then Some prefixlen else None)"

definition prefix_from_prefix_string :: "nat \<Rightarrow> pystr \<Rightarrow> nat option" where
  "prefix_from_prefix_string max_prefixlen prefixlen_str =
     (if prefixlen_str = [] \<or> \<not> list_all is_digit prefixlen_str then None
      else if int_of_digits 10 prefixlen_str > int max_prefixlen then None
      else Some (nat (int_of_digits 10 prefixlen_str)))"

definition ipv4_make_netmask :: "pystr \<Rightarrow> nat option" where
  "ipv4_make_netmask arg =
     (case prefix_from_prefix_string 32 arg of
        Some prefixlen \<Rightarrow> Some prefixlen
      | None \<Rightarrow>
          (if arg = [] then None
           else let octets = split_on 46 arg in
             if length octets \<noteq> 4 then None
             else (case map_option (foldl (\<lambda>a n. 256 * a + n) 0) (those (map parse_octet octets)) of
                 None \<Rightarrow> None
               | Some ip_int \<Rightarrow>
                   (case prefix_from_ip_int ip_int of
                      Some prefixlen \<Rightarrow> Some prefixlen
                    | None \<Rightarrow> prefix_from_ip_int (2 ^ 32 - 1 - ip_int)))))"

definition IPv4Network :: "pystr \<Rightarrow> bool" where
  "IPv4Network address =
     (case split_on 47 address of
        [addr] \<Rightarrow> IPv4Address addr \<noteq> None
      | [addr, mask_str] \<Rightarrow>
          (case IPv4Address addr of
             None \<Rightarrow> False
           | Some packed \<Rightarrow>
               (case ipv4_make_netmask mask_str of
                  None \<Rightarrow> False
                | Some prefixlen \<Rightarrow> packed mod 2 ^ (32 - prefixlen) = 0))
      | _ \<Rightarrow> False)"

definition IPv6Network :: "pystr \<Rightarrow> bool" where
  "IPv6Network address =
     (case split_on 47 address of
        [addr] \<Rightarrow> IPv6Address addr \<noteq> None
      | [addr, mask_str] \<Rightarrow>
          (case IPv6Address addr of
             None \<Rightarrow> False
           | Some packed \<Rightarrow>
               (case prefix_from_prefix_string 128 mask_str of
                  None \<Rightarrow> False
                | Some prefixlen \<Rightarrow> packed mod 2 ^ (128 - prefixlen) = 0))
      | _ \<Rightarrow> False)"

definition is_ip_network :: "pystr \<Rightarrow> bool" where
  "is_ip_network x = (IPv4Network x \<or> IPv6Network x)"

text \<open>
  \<open>re.match(r'^([0-9a-f]{2}[:-]){5}([0-9a-f]{2})$', s)\<close>: \<open>mac_groups n\<close> matches
  \<open>n\<close> groups of two digits and a separator, then two digits and the end of the
  string; \<open>$\<close> also matches before a newline that ends the string.
\<close>

definition is_mac_digit :: "nat \<Rightarrow> bool" where
  "is_mac_digit c = (is_digit c \<or> (97 \<le> c \<and> c \<le> 102))"

fun mac_groups :: "nat \<Rightarrow> pystr \<Rightarrow> bool" where
  "mac_groups 0 s =
     (case s of
        [a, b] \<Rightarrow> is_mac_digit a \<and> is_mac_digit b
      | [a, b, nl] \<Rightarrow> is_mac_digit a \<and> is_mac_digit b \<and> nl = 10
      | _ \<Rightarrow> False)"
| "mac_groups (Suc n) (a # b # c # s) =
     (is_mac_digit a \<and> is_mac_digit b \<and> (c = 58 \<or> c = 45) \<and> mac_groups n s)"
| "mac_groups (Suc n) _ = False"

definition re_match_mac :: "pystr \<Rightarrow> bool" where
  "re_match_mac s = mac_groups 5 s"

section \<open>netbox\_init.py: the store behind the API client\<close>

text \<open>
  The script talks to NetBox through \<open>pynetbox\<close>; neither is part of the repository.
  The store is modelled by what the script uses of it: \<open>all()\<close>, \<open>create\<close>,
  \<open>get\<close>, \<open>save\<close> and \<open>update\<close> on the endpoints below. A payload is the dictionary
  handed to \<open>create\<close>; a record of the store is its identifier with the payload as
  stored, and a record is referred to by its identifier.
\<close>

datatype payload =
    GroupP pystr
  | PermissionP pystr bool "nat list" "pystr list" "pystr list"
      \<comment> \<open>name, enabled, groups, actions, object\_types\<close>
  | ManufacturerP pystr pystr
      \<comment> \<open>name, slug\<close>
  | RoleP pystr pystr bool pystr
      \<comment> \<open>name, slug, vm\_role, color\<close>
  | DeviceTypeP pystr pystr "nat option"
      \<comment> \<open>model, slug, manufacturer\<close>
  | SiteP pystr pystr
      \<comment> \<open>name, slug\<close>
  | PrefixP pystr "nat option" pystr
      \<comment> \<open>prefix, site, description\<close>
  | DeviceP pystr "nat option" "nat option" "nat option"
      \<comment> \<open>name, site, device\_type, role\<close>
  | InterfaceP nat pystr pystr "pystr option"
      \<comment> \<open>device, name, type, mac\_address\<close>
  | IPAddressP pystr pystr nat
      \<comment> \<open>address, assigned\_object\_type, assigned\_object\_id\<close>

datatype endpoint =
    Groups | Permissions | Manufacturers | DeviceRoles | DeviceTypes | Sites
  | Prefixes | Devices | Interfaces | IPAddresses

fun endpoint_of :: "payload \<Rightarrow> endpoint" where
  "endpoint_of (GroupP _) = Groups"
| "endpoint_of (PermissionP _ _ _ _ _) = Permissions"
| "endpoint_of (ManufacturerP _ _) = Manufacturers"
| "endpoint_of (RoleP _ _ _ _) = DeviceRoles"
| "endpoint_of (DeviceTypeP _ _ _) = DeviceTypes"
| "endpoint_of (SiteP _ _) = Sites"
| "endpoint_of (PrefixP _ _ _) = Prefixes"
| "endpoint_of (DeviceP _ _ _ _) = Devices"
| "endpoint_of (InterfaceP _ _ _ _) = Interfaces"
| "endpoint_of (IPAddressP _ _ _) = IPAddresses"

text \<open>
  The attribute the script indexes a collection by: \<open>name\<close>, \<open>model\<close> for a device
  type, \<open>prefix\<close>, \<open>address\<close>.
\<close>

fun key_of :: "payload \<Rightarrow> pystr" where
  "key_of (GroupP name) = name"
| "key_of (PermissionP name _ _ _ _) = name"
| "key_of (ManufacturerP name _) = name"
| "key_of (RoleP name _ _ _) = name"
| "key_of (DeviceTypeP model _ _) = model"
| "key_of (SiteP name _) = name"
| "key_of (PrefixP cidr _ _) = cidr"
| "key_of (DeviceP name _ _ _) = name"
| "key_of (InterfaceP _ name _ _) = name"
| "key_of (IPAddressP address _ _) = address"

datatype exn = RequestError | KeyError

record store =
  rows :: "(nat \<times> payload) list"
  next_id :: nat
  requests :: "payload list"
  primary_ip4 :: "(nat \<times> nat) list"
  primary_ip :: "(nat \<times> nat) list"
  prefix_vrf :: "(nat \<times> pystr) list"
  content_types :: "pystr list"

text \<open>
  \<open>rows\<close>: the records, oldest first. \<open>requests\<close>: every payload \<open>create\<close> was called
  with, accepted or not. \<open>primary_ip4\<close>, \<open>primary_ip\<close>: device identifier to address
  identifier. \<open>prefix_vrf\<close>: prefix identifier to the name of its VRF.
  \<open>content_types\<close>: the \<open>app_label.model\<close> names.

  What is outside the script: \<open>slugify\<close>, the colour generator (the \<open>n\<close>-th call of
  \<open>randColor.generate\<close>), and the store's decision on a \<open>create\<close> request, which may
  depend on its state.
\<close>

record env =
  slugify :: "pystr \<Rightarrow> pystr"
  randColor :: "nat \<Rightarrow> pystr"
  accepts :: "store \<Rightarrow> payload \<Rightarrow> bool"

text \<open>
  The store keeps an address with its mask: an address given without one gets \<open>/32\<close>
  or \<open>/128\<close>. The script relies on it when it looks an address up.
\<close>

fun stored :: "payload \<Rightarrow> payload" where
  "stored (IPAddressP address t obj) =
     IPAddressP (if 47 \<in> set address then address
                 else address @ (if is_ip_v4_address address then str ''/32'' else str ''/128''))
       t obj"
| "stored p = p"

text \<open>
  \<open>create\<close>: the request is recorded; an accepted payload becomes a record with a
  fresh identifier, which is returned; a refused one raises \<open>RequestError\<close>.
\<close>

definition nb_create :: "env \<Rightarrow> payload \<Rightarrow> store \<Rightarrow> (exn + nat) \<times> store" where
  "nb_create e p s =
     (if accepts e s p
      then (Inr (next_id s),
            s\<lparr>rows := rows s @ [(next_id s, stored p)],
              next_id := Suc (next_id s),
              requests := requests s @ [p]\<rparr>)
      else (Inl RequestError, s\<lparr>requests := requests s @ [p]\<rparr>))"

text \<open>\<open>all()\<close> on an endpoint, and the index \<open>{x.name: x for x in ....all()}\<close>\<close>

definition nb_all :: "endpoint \<Rightarrow> store \<Rightarrow> (nat \<times> payload) list" where
  "nb_all ep s = filter (\<lambda>r. endpoint_of (snd r) = ep) (rows s)"

definition index_by_key :: "endpoint \<Rightarrow> store \<Rightarrow> (pystr \<times> nat) list" where
  "index_by_key ep s = dict_of (map (\<lambda>r. (key_of (snd r), fst r)) (nb_all ep s))"

text \<open>\<open>{x.device.id: x for x in nb.dcim.interfaces.all()}\<close>\<close>

fun device_of :: "payload \<Rightarrow> nat option" where
  "device_of (InterfaceP device _ _ _) = Some device"
| "device_of _ = None"

definition index_interfaces :: "store \<Rightarrow> (nat \<times> nat) list" where
  "index_interfaces s =
     dict_of (List.map_filter (\<lambda>r. map_option (\<lambda>d. (d, fst r)) (device_of (snd r)))
                (nb_all Interfaces s))"

text \<open>
  The loop shared by the stages: \<open>for ...: try: create(payload) except RequestError:
  log\<close>. The payloads do not depend on what the loop creates.
\<close>

fun create_each :: "env \<Rightarrow> payload list \<Rightarrow> store \<Rightarrow> store" where
  "create_each e [] s = s"
| "create_each e (p # ps) s = create_each e ps (snd (nb_create e p s))"

section \<open>netbox\_init.py: the stages of main\<close>

text \<open>
  The arguments the stages read. \<open>args_netMap\<close> is the content of the file named by
  \<open>--net-map\<close>, \<open>None\<close> when there is no such file. An entry of the file is an object
  with the string fields \<open>type\<close>, \<open>name\<close> and \<open>address\<close> (each may be absent), or
  something that is not an object.
\<close>

datatype net_map_entry =
    Obj (j_type: "pystr option") (j_name: "pystr option") (j_address: "pystr option")
  | NotObj

record args =
  args_netboxSites :: "pystr list"
  args_manufacturers :: "pystr list"
  args_roles :: "pystr list"
  args_deviceTypes :: "pystr list"
  args_defaultGroupName :: pystr
  args_staffGroupName :: pystr
  args_netMap :: "net_map_entry list option"

subsection \<open>Groups and permissions\<close>

definition groups_stage :: "env \<Rightarrow> args \<Rightarrow> store \<Rightarrow> (pystr \<times> nat) list \<times> store" where
  "groups_stage e a s =
     (let groupsPreExisting = index_by_key Groups s;
          s' = create_each e
                 (map GroupP
                    (filter (\<lambda>x. \<not> dict_has groupsPreExisting x)
                       [args_staffGroupName a, args_defaultGroupName a]))
                 s
      in (index_by_key Groups s', s'))"

record perm_config =
  pc_name :: pystr
  pc_enabled :: bool
  pc_groups :: "pystr list"
  pc_actions :: "pystr list"
  pc_exclude_objects :: "pystr list"

definition DEFAULT_PERMISSIONS :: "args \<Rightarrow> (pystr \<times> perm_config) list" where
  "DEFAULT_PERMISSIONS a =
     dict_of
       [(args_staffGroupName a @ str ''_permission'',
         \<lparr>pc_name = args_staffGroupName a @ str ''_permission'',
          pc_enabled = True,
          pc_groups = [args_staffGroupName a],
          pc_actions = [str ''view'', str ''add'', str ''change'', str ''delete''],
          pc_exclude_objects = []\<rparr>),
        (args_defaultGroupName a @ str ''_permission'',
         \<lparr>pc_name = args_defaultGroupName a @ str ''_permission'',
          pc_enabled = True,
          pc_groups = [args_defaultGroupName a],
          pc_actions = [str ''view'', str ''add'', str ''change'', str ''delete''],
          pc_exclude_objects =
            [str ''admin.logentry'', str ''auth.group'', str ''auth.permission'',
             str ''auth.user'', str ''users.admingroup'', str ''users.adminuser'',
             str ''users.objectpermission'', str ''users.token'', str ''users.userconfig'']\<rparr>)]"

text \<open>
  The loop over the missing permissions. \<open>groups[x].id\<close> raises \<open>KeyError\<close> for a
  group that is not in the index; it is outside the inner \<open>try\<close>, so it ends the
  stage.
\<close>

fun permissions_loop ::
  "env \<Rightarrow> (pystr \<times> nat) list \<Rightarrow> pystr list \<Rightarrow> perm_config list \<Rightarrow> store \<Rightarrow> exn option \<times> store"
where
  "permissions_loop e groups allContentTypeNames [] s = (None, s)"
| "permissions_loop e groups allContentTypeNames (permConfig # rest) s =
     (case those (map (dict_get groups) (pc_groups permConfig)) of
        None \<Rightarrow> (Some KeyError, s)
      | Some group_ids \<Rightarrow>
          permissions_loop e groups allContentTypeNames rest
            (snd (nb_create e
                    (PermissionP (pc_name permConfig) (pc_enabled permConfig) group_ids
                       (pc_actions permConfig)
                       (filter (\<lambda>ct. ct \<notin> set (pc_exclude_objects permConfig))
                          allContentTypeNames))
                    s)))"

definition permissions_stage ::
  "env \<Rightarrow> args \<Rightarrow> (pystr \<times> nat) list \<Rightarrow> store \<Rightarrow> exn option \<times> store"
where
  "permissions_stage e a groups s =
     (let allContentTypeNames = content_types s;
          permsPreExisting = index_by_key Permissions s
      in permissions_loop e groups allContentTypeNames
           (filter (\<lambda>v. pc_name v \<noteq> [] \<and> \<not> dict_has permsPreExisting (pc_name v))
              (map snd (DEFAULT_PERMISSIONS a)))
           s)"

subsection \<open>Manufacturers, roles, device types, sites\<close>

definition manufacturers_stage :: "env \<Rightarrow> args \<Rightarrow> store \<Rightarrow> (pystr \<times> nat) list \<times> store" where
  "manufacturers_stage e a s =
     (let manufacturersPreExisting = index_by_key Manufacturers s;
          s' = create_each e
                 (map (\<lambda>manufacturerName. ManufacturerP manufacturerName (slugify e manufacturerName))
                    (filter (\<lambda>x. \<not> dict_has manufacturersPreExisting x) (args_manufacturers a)))
                 s
      in (index_by_key Manufacturers s', s'))"

definition roles_stage :: "env \<Rightarrow> args \<Rightarrow> store \<Rightarrow> (pystr \<times> nat) list \<times> store" where
  "roles_stage e a s =
     (let rolesPreExisting = index_by_key DeviceRoles s;
          s' = create_each e
                 (map (\<lambda>(n, roleName). RoleP roleName (slugify e roleName) True (randColor e n))
                    (enumerate 0 (filter (\<lambda>x. \<not> dict_has rolesPreExisting x) (args_roles a))))
                 s
      in (index_by_key DeviceRoles s', s'))"

definition device_types_stage ::
  "env \<Rightarrow> args \<Rightarrow> (pystr \<times> nat) list \<Rightarrow> store \<Rightarrow> (pystr \<times> nat) list \<times> store"
where
  "device_types_stage e a manufacturers s =
     (let deviceTypesPreExisting = index_by_key DeviceTypes s;
          manuf = min_hash_value_by_value manufacturers;
          s' = create_each e
                 (map (\<lambda>deviceTypeModel. DeviceTypeP deviceTypeModel (slugify e deviceTypeModel) manuf)
                    (filter (\<lambda>x. \<not> dict_has deviceTypesPreExisting x) (args_deviceTypes a)))
                 s
      in (index_by_key DeviceTypes s', s'))"

definition sites_stage :: "env \<Rightarrow> args \<Rightarrow> store \<Rightarrow> (pystr \<times> nat) list \<times> store" where
  "sites_stage e a s =
     (let sitesPreExisting = index_by_key Sites s;
          s' = create_each e
                 (map (\<lambda>siteName. SiteP siteName (slugify e siteName))
                    (filter (\<lambda>x. \<not> dict_has sitesPreExisting x) (args_netboxSites a)))
                 s
      in (index_by_key Sites s', s'))"

subsection \<open>The network map\<close>

text \<open>
  The entries the loops run over, as (name, address): an object of type \<open>segment\<close>
  with a name and an address \<open>is_ip_network\<close> takes; an object of type \<open>host\<close> with a
  name and an address, both not empty.
\<close>

fun segment_of :: "net_map_entry \<Rightarrow> (pystr \<times> pystr) option" where
  "segment_of (Obj (Some t) (Some name) (Some address)) =
     (if t = str ''segment'' \<and> name \<noteq> [] \<and> is_ip_network address
      then Some (name, address) else None)"
| "segment_of _ = None"

fun host_of :: "net_map_entry \<Rightarrow> (pystr \<times> pystr) option" where
  "host_of (Obj (Some t) (Some name) (Some address)) =
     (if t = str ''host'' \<and> name \<noteq> [] \<and> address \<noteq> []
      then Some (name, address) else None)"
| "host_of _ = None"

text \<open>
  The prefixes. \<open>prefixesPreExisting\<close> is fetched and logged, and not used: a
  \<open>create\<close> is sent for every segment.
\<close>

definition prefixes_stage ::
  "env \<Rightarrow> net_map_entry list \<Rightarrow> (pystr \<times> nat) list \<Rightarrow> store \<Rightarrow> (pystr \<times> nat) list \<times> store"
where
  "prefixes_stage e netMapJson sites s =
     (let prefixesPreExisting = index_by_key Prefixes s;
          site = min_hash_value_by_value sites;
          s' = create_each e
                 (map (\<lambda>segment. PrefixP (snd segment) site (fst segment))
                    (List.map_filter segment_of netMapJson))
                 s
      in (index_by_key Prefixes s', s'))"

text \<open>
  One host of the device loop: the device, and when it was created its interface, by
  the kind of the address. A \<open>RequestError\<close> of either \<open>create\<close> is caught and the
  loop goes on.
\<close>

definition create_host ::
  "env \<Rightarrow> nat option \<Rightarrow> nat option \<Rightarrow> nat option \<Rightarrow> pystr \<times> pystr \<Rightarrow> store \<Rightarrow> store"
where
  "create_host e site dType role host s =
     (case nb_create e (DeviceP (fst host) site dType role) s of
        (Inl _, s1) \<Rightarrow> s1
      | (Inr deviceCreated, s1) \<Rightarrow>
          if is_ip_address (snd host) then
            snd (nb_create e (InterfaceP deviceCreated (str ''default'') (str ''other'') None) s1)
          else if re_match_mac (lower (snd host)) then
            snd (nb_create e
                   (InterfaceP deviceCreated (str ''default'') (str ''other'')
                      (Some (lower (snd host))))
                   s1)
          else s1)"

fun devices_loop ::
  "env \<Rightarrow> nat option \<Rightarrow> nat option \<Rightarrow> nat option \<Rightarrow> (pystr \<times> pystr) list \<Rightarrow> store \<Rightarrow> store"
where
  "devices_loop e site dType role [] s = s"
| "devices_loop e site dType role (host # hosts) s =
     devices_loop e site dType role hosts (create_host e site dType role host s)"

definition devices_stage ::
  "env \<Rightarrow> net_map_entry list \<Rightarrow> (pystr \<times> nat) list \<Rightarrow> (pystr \<times> nat) list \<Rightarrow> (pystr \<times> nat) list
     \<Rightarrow> store \<Rightarrow> store"
where
  "devices_stage e netMapJson sites deviceTypes roles s =
     (let devicesPreExisting = index_by_key Devices s
      in devices_loop e
           (min_hash_value_by_value sites)
           (min_hash_value_by_value deviceTypes)
           (min_hash_value_by_value roles)
           (filter (\<lambda>host. \<not> dict_has devicesPreExisting (fst host))
              (List.map_filter host_of netMapJson))
           s)"

text \<open>
  \<open>deviceForIp = nb.dcim.devices.get(id=...)\<close>, the assignment of the primary address
  and \<open>deviceForIp.save()\<close>.
\<close>

definition set_primary :: "pystr \<Rightarrow> nat \<Rightarrow> nat \<Rightarrow> store \<Rightarrow> store" where
  "set_primary address device ipCreated s =
     (if device \<notin> set (map fst (nb_all Devices s)) then s
      else if is_ip_v4_address address then s\<lparr>primary_ip4 := dict_set (primary_ip4 s) device ipCreated\<rparr>
      else if is_ip_v6_address address then s\<lparr>primary_ip := dict_set (primary_ip s) device ipCreated\<rparr>
      else s)"

text \<open>
  The address loop. A host whose address is in \<open>ipAddressesPreExisting\<close> is passed
  over. \<open>interfaces[devices[host['name']].id]\<close> raises \<open>KeyError\<close> for a device
  without interface; it is not a \<open>RequestError\<close>, so it ends the loop.
\<close>

fun addresses_loop ::
  "env \<Rightarrow> (pystr \<times> nat) list \<Rightarrow> (nat \<times> nat) list \<Rightarrow> (pystr \<times> nat) list \<Rightarrow> (pystr \<times> pystr) list
     \<Rightarrow> store \<Rightarrow> exn option \<times> store"
where
  "addresses_loop e devices interfaces ipAddressesPreExisting [] s = (None, s)"
| "addresses_loop e devices interfaces ipAddressesPreExisting (host # hosts) s =
     (let hostKey = snd host @ str ''/''
                    @ (if is_ip_v4_address (snd host) then str ''32'' else str ''128'')
      in if dict_has ipAddressesPreExisting hostKey
         then addresses_loop e devices interfaces ipAddressesPreExisting hosts s
         else (case dict_get devices (fst host) of
             None \<Rightarrow> (Some KeyError, s)
           | Some device \<Rightarrow>
               (case dict_get interfaces device of
                  None \<Rightarrow> (Some KeyError, s)
                | Some interface \<Rightarrow>
                    (case nb_create e
                            (IPAddressP (snd host) (str ''dcim.interface'') interface) s of
                       (Inl _, s1) \<Rightarrow>
                         addresses_loop e devices interfaces ipAddressesPreExisting hosts s1
                     | (Inr ipCreated, s1) \<Rightarrow>
                         addresses_loop e devices interfaces ipAddressesPreExisting hosts
                           (set_primary (snd host) device ipCreated s1)))))"

definition addresses_stage :: "env \<Rightarrow> net_map_entry list \<Rightarrow> store \<Rightarrow> exn option \<times> store" where
  "addresses_stage e netMapJson s =
     (let devices = index_by_key Devices s;
          interfaces = index_interfaces s;
          ipAddressesPreExisting = index_by_key IPAddresses s
      in addresses_loop e devices interfaces ipAddressesPreExisting
           (filter (\<lambda>host. is_ip_address (snd host) \<and> dict_has devices (fst host))
              (List.map_filter host_of netMapJson))
           s)"

definition net_map_stage ::
  "env \<Rightarrow> args \<Rightarrow> (pystr \<times> nat) list \<Rightarrow> (pystr \<times> nat) list \<Rightarrow> (pystr \<times> nat) list \<Rightarrow> store
     \<Rightarrow> exn option \<times> store"
where
  "net_map_stage e a sites deviceTypes roles s =
     (case args_netMap a of
        None \<Rightarrow> (None, s)
      | Some netMapJson \<Rightarrow>
          addresses_stage e netMapJson
            (devices_stage e netMapJson sites deviceTypes roles
               (snd (prefixes_stage e netMapJson sites s))))"

subsection \<open>Prefix descriptions from VRF names, and main\<close>

definition vrf_stage :: "store \<Rightarrow> store" where
  "vrf_stage s =
     s\<lparr>rows :=
         map (\<lambda>r. case snd r of
                    PrefixP cidr site description \<Rightarrow>
                      (case dict_get (prefix_vrf s) (fst r) of
                         Some vrf \<Rightarrow>
                           if description = [] then (fst r, PrefixP cidr site vrf) else r
                       | None \<Rightarrow> r)
                  | _ \<Rightarrow> r)
           (rows s)\<rparr>"

text \<open>
  The stages in the order of \<open>main\<close>, each in its own \<open>try\<close>: an exception that ends
  a stage is logged and the next stage runs. The store answers every request, so the
  loop that waits for the connection is left at once. \<open>catalog_stages\<close> are the stages
  before the network map; they hand on the indexes of sites, device types and roles.
  The network map is taken to be a list, the case the entries are read from.
\<close>

definition catalog_stages ::
  "env \<Rightarrow> args \<Rightarrow> store
     \<Rightarrow> (pystr \<times> nat) list \<times> (pystr \<times> nat) list \<times> (pystr \<times> nat) list \<times> store"
where
  "catalog_stages e a s0 =
     (let (groups, s1) = groups_stage e a s0;
          s2 = snd (permissions_stage e a groups s1);
          (manufacturers, s3) = manufacturers_stage e a s2;
          (roles, s4) = roles_stage e a s3;
          (deviceTypes, s5) = device_types_stage e a manufacturers s4;
          (sites, s6) = sites_stage e a s5
      in (sites, deviceTypes, roles, s6))"

definition main :: "env \<Rightarrow> args \<Rightarrow> store \<Rightarrow> store" where
  "main e a s0 =
     (let (sites, deviceTypes, roles, s6) = catalog_stages e a s0;
          s7 = snd (net_map_stage e a sites deviceTypes roles s6)
      in vrf_stage s7)"

subsection \<open>A relation between stores, for the proofs\<close>

text \<open>
  \<open>adds_only eps s s'\<close>: the store \<open>s'\<close> is \<open>s\<close> with records and requests added at
  the end, all on endpoints in \<open>eps\<close>; the VRF names and the content types are those of
  \<open>s\<close> and the next identifier is not smaller. The primary addresses may differ.
\<close>

definition adds_only :: "endpoint set \<Rightarrow> store \<Rightarrow> store \<Rightarrow> bool" where
  "adds_only eps s s' =
     (\<exists>new_rows new_requests.
        rows s' = rows s @ new_rows \<and> requests s' = requests s @ new_requests
        \<and> list_all (\<lambda>r. endpoint_of (snd r) \<in> eps) new_rows
        \<and> list_all (\<lambda>p. endpoint_of p \<in> eps) new_requests
        \<and> prefix_vrf s' = prefix_vrf s \<and> content_types s' = content_types s
        \<and> next_id s \<le> next_id s')"

subsection \<open>Example surroundings\<close>

text \<open>
  A store that accepts every request (NetBox refuses a second prefix or address of the
  same value only when it is configured to enforce uniqueness), with a \<open>slugify\<close>
  that suffices for the names used below and a constant colour; and the empty store.
\<close>

definition accepting :: env where
  "accepting = \<lparr>slugify = lower, randColor = (\<lambda>n. str ''336699''), accepts = (\<lambda>s p. True)\<rparr>"

definition empty_store :: store where
  "empty_store =
     \<lparr>rows = [], next_id = 1, requests = [], primary_ip4 = [], primary_ip = [],
      prefix_vrf = [], content_types = []\<rparr>"

text \<open>
  A store with one site, one device type and one role, and arguments that name nothing
  and no network map.
\<close>

definition seeded_store :: store where
  "seeded_store =
     empty_store
       \<lparr>rows := [(1, SiteP (str ''HQ'') (str ''hq'')),
                 (2, DeviceTypeP (str ''Model-X'') (str ''model-x'') None),
                 (3, RoleP (str ''Sensor'') (str ''sensor'') True (str ''336699''))],
        next_id := 4\<rparr>"

definition no_args :: args where
  "no_args =
     \<lparr>args_netboxSites = [], args_manufacturers = [], args_roles = [], args_deviceTypes = [],
      args_defaultGroupName = str ''standard'', args_staffGroupName = str ''administrator'',
      args_netMap = None\<rparr>"

text \<open>
  Arguments whose network map is the one segment \<open>lan\<close>, \<open>10.0.0.0/24\<close>, and a store
  that holds this prefix already.
\<close>

definition lan_args :: args where
  "lan_args =
     no_args\<lparr>args_netMap :=
       Some [Obj (Some (str ''segment'')) (Some (str ''lan'')) (Some (str ''10.0.0.0/24''))]\<rparr>"

definition store_with_prefix :: store where
  "store_with_prefix =
     seeded_store
       \<lparr>rows := rows seeded_store @ [(4, PrefixP (str ''10.0.0.0/24'') (Some 1) (str ''lan''))],
        next_id := 5\<rparr>"

text \<open>Arguments whose network map is the one host \<open>h1\<close> with the address \<open>10.0.0.5\<close>.\<close>

definition host_args :: args where
  "host_args =
     no_args\<lparr>args_netMap :=
       Some [Obj (Some (str ''host'')) (Some (str ''h1'')) (Some (str ''10.0.0.5''))]\<rparr>"

section \<open>Properties of the block-replacement helper and of the output filter\<close>

lemma insert_replacement_eq:
  "i \<le> length lines \<Longrightarrow>
   insert_replacement lines i indent rs = take i lines @ map ((@) indent) rs @ drop i lines"
proof (induction rs arbitrary: lines i)
  case Nil
  then show ?case by simp
next
  case (Cons r rs)
  have "insert_replacement (list_insert lines i (indent @ r)) (Suc i) indent rs
      = take (Suc i) (list_insert lines i (indent @ r)) @ map ((@) indent) rs
        @ drop (Suc i) (list_insert lines i (indent @ r))"
    using Cons.prems by (intro Cons.IH) (simp add: list_insert_def)
  then show ?case using Cons.prems
    by (simp add: list_insert_def)
qed

lemma match_indent_upto_Some:
  "match_indent_upto k p l = Some ind \<Longrightarrow>
     \<exists>n. 0 < n \<and> n \<le> k \<and> ind = take n l \<and> prefix p (drop n l)"
  by (induction k) (auto split: if_splits intro: le_SucI)

lemma match_indent_upto_None:
  "match_indent_upto k p l = None \<longleftrightarrow> (\<forall>n. 0 < n \<and> n \<le> k \<longrightarrow> \<not> prefix p (drop n l))"
  by (induction k) (auto simp: le_Suc_eq)

lemma takeWhile_le: "length (takeWhile P l) \<le> length l"
  by (induction l) auto

lemma all_space_take_iff:
  "(n \<le> length l \<and> list_all isspace (take n l)) \<longleftrightarrow> n \<le> length (takeWhile isspace l)"
proof (induction l arbitrary: n)
  case Nil
  then show ?case by simp
next
  case (Cons c l)
  show ?case by (cases n) (use Cons in auto)
qed

lemma indented_placeholder_iff:
  "indented_placeholder p l \<longleftrightarrow>
     (\<exists>n. 0 < n \<and> n \<le> length (takeWhile isspace l) \<and> prefix p (drop n l))"
proof -
  have "indented_placeholder p l \<longleftrightarrow>
      (\<exists>n. 0 < n \<and> (n \<le> length l \<and> list_all isspace (take n l)) \<and> prefix p (drop n l))"
    unfolding indented_placeholder_def list_ex_iff Bex_def set_upt atLeastLessThan_iff
    by (auto simp: less_Suc_eq_le Suc_le_eq)
  then show ?thesis by (simp only: all_space_take_iff)
qed

lemma re_match_indent_None:
  "re_match_indent p l = None \<longleftrightarrow> \<not> indented_placeholder p l"
  unfolding re_match_indent_def match_indent_upto_None indented_placeholder_iff by blast

lemma re_match_indent_Some:
  assumes "re_match_indent p l = Some ind"
  shows "ind \<noteq> [] \<and> list_all isspace ind \<and> prefix (ind @ p) l"
proof -
  from assms obtain n where n: "0 < n" "n \<le> length (takeWhile isspace l)"
      "ind = take n l" "prefix p (drop n l)"
    unfolding re_match_indent_def by (blast dest: match_indent_upto_Some)
  have len: "n \<le> length l" using n(2) takeWhile_le [of isspace l] by simp
  have "list_all isspace ind" using n(2,3) all_space_take_iff [of n l] by simp
  moreover have "ind \<noteq> []" using n(1,3) len by auto
  moreover have "prefix (ind @ p) l"
  proof -
    from n(4) obtain r where "drop n l = p @ r" by (auto simp: prefix_def)
    then have "l = take n l @ p @ r" by (metis append_take_drop_id)
    then show ?thesis using n(3) by (metis append.assoc prefixI)
  qed
  ultimately show ?thesis by simp
qed

lemma align_lines_from_none:
  "list_all (\<lambda>l. \<not> indented_placeholder p l) todo \<Longrightarrow>
   align_lines_from lines i todo p repl = lines"
  by (induction todo arbitrary: i) (auto simp: re_match_indent_None [symmetric])

lemma align_lines_from_first:
  assumes "list_all (\<lambda>l. \<not> indented_placeholder p l) mid"
    and "re_match_indent p l = Some ind"
  shows "align_lines_from (pre @ mid @ l # post) (length pre) (mid @ l # post) p repl
       = pre @ mid @ map ((@) ind) repl @ post"
  using assms(1)
proof (induction mid arbitrary: pre)
  case Nil
  show ?case
    using assms(2) by (simp add: list_del_def insert_replacement_eq)
next
  case (Cons m mid)
  have "align_lines_from ((pre @ [m]) @ mid @ l # post) (length (pre @ [m])) (mid @ l # post) p repl
      = (pre @ [m]) @ mid @ map ((@) ind) repl @ post"
    using Cons.prems by (intro Cons.IH) simp
  moreover have "re_match_indent p m = None"
    using Cons.prems by (simp add: re_match_indent_None)
  ultimately show ?case by simp
qed

lemma align_lines_first:
  assumes "list_all (\<lambda>l. \<not> indented_placeholder p l) pre"
    and "re_match_indent p l = Some ind"
  shows "align_lines (pre @ l # post) p repl = pre @ map ((@) ind) repl @ post"
  using align_lines_from_first [OF assms, of "[]" post repl]
  by (simp add: align_lines_def)

lemma align_lines_none:
  "list_all (\<lambda>l. \<not> indented_placeholder p l) lines \<Longrightarrow> align_lines lines p repl = lines"
  by (simp add: align_lines_def align_lines_from_none)

lemma splitlines_from_append:
  "list_all (\<lambda>c. \<not> is_linebreak c) x \<Longrightarrow>
   splitlines_from cur (x @ rest) = splitlines_from (cur @ x) rest"
  by (induction x arbitrary: cur) auto

lemma splitlines_from_LF: "splitlines_from cur (10 # rest) = cur # splitlines_from [] rest"
  by (simp add: is_linebreak_def)

lemma splitlines_from_no_break:
  "list_all (\<lambda>c. \<not> is_linebreak c) cur \<Longrightarrow>
   list_all (list_all (\<lambda>c. \<not> is_linebreak c)) (splitlines_from cur t)"
  by (induction cur t rule: splitlines_from.induct) auto

lemma splitlines_no_break:
  "list_all (list_all (\<lambda>c. \<not> is_linebreak c)) (splitlines t)"
  by (simp add: splitlines_def splitlines_from_no_break)

lemma splitlines_join_nl:
  "ls \<noteq> [] \<Longrightarrow> list_all (list_all (\<lambda>c. \<not> is_linebreak c)) ls \<Longrightarrow>
   splitlines_from [] (join_nl ls @ [10]) = ls"
proof (induction ls rule: join_nl.induct)
  case 1
  then show ?case by simp
next
  case (2 x)
  then show ?case
    using splitlines_from_append [of x "[]" "[10]"] by (simp add: is_linebreak_def)
next
  case (3 x y ys)
  have "splitlines_from [] (x @ 10 # join_nl (y # ys) @ [10])
      = splitlines_from x (10 # join_nl (y # ys) @ [10])"
    using 3(3) splitlines_from_append [of x "[]" "10 # join_nl (y # ys) @ [10]"] by simp
  then show ?case using 3 by (simp add: is_linebreak_def)
qed

lemma filtered_no_break: "list_all (list_all (\<lambda>c. \<not> is_linebreak c)) (filtered t)"
  using splitlines_no_break [of t] by (auto simp: filtered_def list_all_iff)

lemma splitlines_written:
  "splitlines (written t) = (if filtered t = [] then [[]] else filtered t)"
  using splitlines_join_nl [OF _ filtered_no_break, of t]
  by (simp add: written_def splitlines_def is_linebreak_def)

lemma list_ex_from_one: "list_ex P [1 ..< Suc k] \<longleftrightarrow> (\<exists>n. 0 < n \<and> n \<le> k \<and> P n)"
  unfolding list_ex_iff Bex_def set_upt atLeastLessThan_iff
  by (auto simp: less_Suc_eq_le Suc_le_eq)

lemma take_takeWhile: "take (length (takeWhile P x)) x = takeWhile P x"
  by (induction x) auto

lemma drop_takeWhile: "drop (length (takeWhile P x)) x = dropWhile P x"
  by (induction x) auto

lemma list_all_takeWhile: "list_all P (takeWhile P x)"
  by (induction x) auto

lemma takeWhile_split:
  "list_all P xs \<Longrightarrow> \<not> P y \<Longrightarrow> takeWhile P (xs @ y # ys) = xs \<and> dropWhile P (xs @ y # ys) = y # ys"
  by (induction xs) auto

lemma re_match_empty_item_iff: "re_match_empty_item x \<longleftrightarrow> indented_dash x"
proof
  assume m: "re_match_empty_item x"
  let ?n = "length (takeWhile isspace x)"
  have 1: "0 < ?n" using m by (simp add: re_match_empty_item_def)
  have 2: "?n \<le> length x" by (rule takeWhile_le)
  have 3: "list_all isspace (take ?n x)"
    by (simp only: take_takeWhile list_all_takeWhile)
  have 4: "(case drop ?n x of [] \<Rightarrow> False | c # rest \<Rightarrow> c = 45 \<and> list_all isspace rest)"
    using m by (simp only: drop_takeWhile re_match_empty_item_def)
  show "indented_dash x"
    unfolding indented_dash_def list_ex_from_one using 1 2 3 4 by blast
next
  assume "indented_dash x"
  then obtain n where n: "0 < n" "n \<le> length x" "list_all isspace (take n x)"
      "(case drop n x of [] \<Rightarrow> False | c # rest \<Rightarrow> c = 45 \<and> list_all isspace rest)"
    unfolding indented_dash_def list_ex_from_one by blast
  from n(4) obtain rest where r: "drop n x = 45 # rest" "list_all isspace rest"
    by (cases "drop n x") auto
  have x: "x = take n x @ 45 # rest" using r(1) by (metis append_take_drop_id)
  have ns: "\<not> isspace 45" by (simp add: isspace_def)
  have "takeWhile isspace (take n x @ 45 # rest) = take n x
      \<and> dropWhile isspace (take n x @ 45 # rest) = 45 # rest"
    using n(3) ns by (rule takeWhile_split)
  then have tw: "takeWhile isspace x = take n x" and dw: "dropWhile isspace x = 45 # rest"
    using x by simp_all
  have "take n x \<noteq> []" using n(1,2) by auto
  then show "re_match_empty_item x"
    using r(2) by (simp add: re_match_empty_item_def tw dw)
qed

lemma re_match_indent_unique:
  assumes "re_match_indent p l = Some ind" and "p \<noteq> []" and "\<not> isspace (hd p)"
  shows "ind = takeWhile isspace l"
proof -
  let ?k = "length (takeWhile isspace l)"
  from assms(1) obtain n where n: "0 < n" "n \<le> ?k" "ind = take n l" "prefix p (drop n l)"
    unfolding re_match_indent_def by (blast dest: match_indent_upto_Some)
  have "\<not> n < ?k"
  proof
    assume lt: "n < ?k"
    then have "isspace (takeWhile isspace l ! n)"
      using nth_mem set_takeWhileD by fastforce
    then have sp: "isspace (l ! n)" using lt by (simp add: takeWhile_nth)
    have "n < length l" using lt takeWhile_le [of isspace l] by simp
    then have "drop n l = l ! n # drop (Suc n) l" by (simp add: Cons_nth_drop_Suc)
    with n(4) assms(2) have "hd p = l ! n" by (cases p) auto
    with sp assms(3) show False by simp
  qed
  with n(2) have "n = ?k" by simp
  with n(3) show ?thesis by (simp add: take_takeWhile)
qed

lemma no_indent_no_placeholder:
  "l = [] \<or> \<not> isspace (hd l) \<Longrightarrow> \<not> indented_placeholder p l"
  by (cases l) (auto simp: indented_placeholder_iff)

text \<open>
  Claim C8. In a document whose lines are \<open>pre\<close>, then the line
  \<open>   __EXTRA_ROOT_SHELL_CMDS__\<close>, then \<open>post\<close>, where no line of \<open>pre\<close> is an
  indented placeholder, \<open>align_replace\<close> with the replacement list \<open>["cmd1", "cmd2"]\<close>
  puts the two lines \<open>   cmd1\<close> and \<open>   cmd2\<close>, in this order and with the three
  spaces of the placeholder line, in the place of that line; the other lines stay.
\<close>

theorem align_replace_keeps_indentation:
  assumes "splitlines text = pre @ str ''   __EXTRA_ROOT_SHELL_CMDS__'' # post"
    and "list_all (\<lambda>l. \<not> indented_placeholder (str ''__EXTRA_ROOT_SHELL_CMDS__'') l) pre"
  shows "align_replace text (str ''__EXTRA_ROOT_SHELL_CMDS__'') [str ''cmd1'', str ''cmd2'']
       = join_nl (pre @ [str ''   cmd1'', str ''   cmd2''] @ post) @ [10]"
proof -
  have "re_match_indent (str ''__EXTRA_ROOT_SHELL_CMDS__'') (str ''   __EXTRA_ROOT_SHELL_CMDS__'')
      = Some (str ''   '')"
    by (simp add: re_match_indent_def str_def isspace_def)
  with assms(2) have "align_lines (pre @ str ''   __EXTRA_ROOT_SHELL_CMDS__'' # post)
      (str ''__EXTRA_ROOT_SHELL_CMDS__'') [str ''cmd1'', str ''cmd2'']
      = pre @ map ((@) (str ''   '')) [str ''cmd1'', str ''cmd2''] @ post"
    by (rule align_lines_first)
  then show ?thesis
    by (simp add: align_replace_def assms(1) str_def)
qed

theorem align_replace_keeps_indentation_witness:
  "align_replace (str ''steps:'' @ [10] @ str ''   __EXTRA_ROOT_SHELL_CMDS__'' @ [13, 10] @ str ''end'')
     (str ''__EXTRA_ROOT_SHELL_CMDS__'') [str ''cmd1'', str ''cmd2'']
   = str ''steps:'' @ [10] @ str ''   cmd1'' @ [10] @ str ''   cmd2'' @ [10] @ str ''end'' @ [10]"
proof -
  have 1: "splitlines (str ''steps:'' @ [10] @ str ''   __EXTRA_ROOT_SHELL_CMDS__'' @ [13, 10] @ str ''end'')
      = [str ''steps:''] @ str ''   __EXTRA_ROOT_SHELL_CMDS__'' # [str ''end'']"
    by (simp add: splitlines_def str_def is_linebreak_def)
  have "re_match_indent (str ''__EXTRA_ROOT_SHELL_CMDS__'') (str ''steps:'') = None"
    by (simp add: re_match_indent_def str_def isspace_def)
  then have 2: "list_all (\<lambda>l. \<not> indented_placeholder (str ''__EXTRA_ROOT_SHELL_CMDS__'') l) [str ''steps:'']"
    by (simp add: re_match_indent_None)
  show ?thesis
    using align_replace_keeps_indentation [OF 1 2] by (simp add: str_def)
qed

text \<open>
  Claim C10. \<open>align_replace\<close> changes at most one line. When no line is one or more
  whitespace characters followed by the placeholder, every line is kept. Otherwise the
  first such line, and only it, is replaced by the replacement lines, each behind the
  whitespace \<open>ind\<close> that stood before the placeholder (all the leading whitespace of
  the line when the placeholder does not itself begin with whitespace); the lines
  before and after it, later occurrences of the placeholder included, are kept. A line
  that does not begin with whitespace is never such a line, so a placeholder at the
  very start of a line is not replaced.
\<close>

theorem align_replace_first_indented_line_only:
  "(list_all (\<lambda>l. \<not> indented_placeholder p l) (splitlines text)
      \<longrightarrow> align_replace text p repl = join_nl (splitlines text) @ [10])
   \<and> (splitlines text = pre @ l # post
        \<and> list_all (\<lambda>x. \<not> indented_placeholder p x) pre \<and> indented_placeholder p l
      \<longrightarrow> (\<exists>ind. ind \<noteq> [] \<and> list_all isspace ind \<and> prefix (ind @ p) l
             \<and> (p \<noteq> [] \<and> \<not> isspace (hd p) \<longrightarrow> ind = takeWhile isspace l)
             \<and> align_replace text p repl = join_nl (pre @ map ((@) ind) repl @ post) @ [10]))
   \<and> (x = [] \<or> \<not> isspace (hd x) \<longrightarrow> \<not> indented_placeholder p x)"
proof (intro conjI impI)
  assume "list_all (\<lambda>l. \<not> indented_placeholder p l) (splitlines text)"
  then show "align_replace text p repl = join_nl (splitlines text) @ [10]"
    by (simp add: align_replace_def align_lines_none)
next
  assume a: "splitlines text = pre @ l # post
        \<and> list_all (\<lambda>x. \<not> indented_placeholder p x) pre \<and> indented_placeholder p l"
  then obtain ind where m: "re_match_indent p l = Some ind"
    using re_match_indent_None [of p l] by auto
  have "align_lines (pre @ l # post) p repl = pre @ map ((@) ind) repl @ post"
    using a m by (intro align_lines_first) simp_all
  then have "align_replace text p repl = join_nl (pre @ map ((@) ind) repl @ post) @ [10]"
    using a by (simp add: align_replace_def)
  moreover have "p \<noteq> [] \<and> \<not> isspace (hd p) \<longrightarrow> ind = takeWhile isspace l"
    using re_match_indent_unique [OF m] by simp
  ultimately show "\<exists>ind. ind \<noteq> [] \<and> list_all isspace ind \<and> prefix (ind @ p) l
             \<and> (p \<noteq> [] \<and> \<not> isspace (hd p) \<longrightarrow> ind = takeWhile isspace l)
             \<and> align_replace text p repl = join_nl (pre @ map ((@) ind) repl @ post) @ [10]"
    using re_match_indent_Some [OF m] by blast
next
  assume "x = [] \<or> \<not> isspace (hd x)"
  then show "\<not> indented_placeholder p x" by (rule no_indent_no_placeholder)
qed

lemma filtered_eq:
  "filtered t = filter (\<lambda>x. \<not> (x \<noteq> [] \<and> blank_line x) \<and> \<not> indented_dash x) (splitlines t)"
  by (simp add: filtered_def re_match_blank_def blank_line_def re_match_empty_item_iff)

theorem align_replace_first_indented_line_only_witness:
  "align_replace (str ''__P__'' @ [10] @ str ''  __P__ x'' @ [10, 9] @ str ''__P__'') (str ''__P__'')
       [str ''a'', str ''b'']
     = str ''__P__'' @ [10] @ str ''  a'' @ [10] @ str ''  b'' @ [10, 9] @ str ''__P__'' @ [10]
   \<and> align_replace (str ''__P__'') (str ''__P__'') [str ''a'', str ''b''] = str ''__P__'' @ [10]
   \<and> \<not> indented_placeholder (str ''__P__'') (str ''__P__'')"
proof -
  let ?T = "str ''__P__'' @ [10] @ str ''  __P__ x'' @ [10, 9] @ str ''__P__''"
  let ?P = "str ''__P__''"
  let ?R = "[str ''a'', str ''b'']"
  have none: "re_match_indent ?P (str ''__P__'') = None"
    by (simp add: re_match_indent_def str_def isspace_def)
  have some: "re_match_indent ?P (str ''  __P__ x'') \<noteq> None"
    by (simp add: re_match_indent_def str_def isspace_def)
  have sp: "splitlines ?T = [str ''__P__''] @ str ''  __P__ x'' # [9 # str ''__P__'']"
    by (simp add: splitlines_def str_def is_linebreak_def)
  have hyp: "splitlines ?T = [str ''__P__''] @ str ''  __P__ x'' # [9 # str ''__P__'']
      \<and> list_all (\<lambda>x. \<not> indented_placeholder ?P x) [str ''__P__'']
      \<and> indented_placeholder ?P (str ''  __P__ x'')"
    using none some sp by (simp add: re_match_indent_None)
  have pat: "?P \<noteq> [] \<and> \<not> isspace (hd ?P)"
    by (simp add: str_def isspace_def)
  have tw: "takeWhile isspace (str ''  __P__ x'') = str ''  ''"
    by (simp add: str_def isspace_def)
  from align_replace_first_indented_line_only
         [of ?P ?T ?R "[str ''__P__'']" "str ''  __P__ x''" "[9 # str ''__P__'']" "str ''__P__''"]
       hyp pat tw
  have 1: "align_replace ?T ?P ?R
      = join_nl ([str ''__P__''] @ map ((@) (str ''  '')) ?R @ [9 # str ''__P__'']) @ [10]"
    by auto
  have sp2: "splitlines (str ''__P__'') = [str ''__P__'']"
    by (simp add: splitlines_def str_def is_linebreak_def)
  have "list_all (\<lambda>l. \<not> indented_placeholder ?P l) (splitlines (str ''__P__''))"
    using none by (simp add: sp2 re_match_indent_None)
  with align_replace_first_indented_line_only [of ?P "str ''__P__''" ?R]
  have 2: "align_replace (str ''__P__'') ?P ?R = join_nl (splitlines (str ''__P__'')) @ [10]"
    by blast
  have hd: "str ''__P__'' = [] \<or> \<not> isspace (hd (str ''__P__''))"
    by (simp add: str_def isspace_def)
  with align_replace_first_indented_line_only [where x = "str ''__P__''" and p = ?P]
  have 3: "\<not> indented_placeholder ?P (str ''__P__'')" by blast
  show ?thesis
    unfolding 1 2 sp2 using 3 by (simp add: str_def)
qed

text \<open>
  Claim C9, as amended. The lines of the written text are the lines of the substituted
  text without every line that is one or more whitespace characters and nothing else
  and without every line that is one or more whitespace characters, a dash, and
  whitespace or nothing after it; no line of the written text is of either kind. Lines
  with no character at all are kept, and when nothing is kept the written text is one
  empty line.
\<close>

theorem written_drops_indented_blank_lines:
  "splitlines (written t) = (if filtered t = [] then [[]] else filtered t)
   \<and> filtered t = filter (\<lambda>x. \<not> (x \<noteq> [] \<and> blank_line x) \<and> \<not> indented_dash x) (splitlines t)
   \<and> list_all (\<lambda>x. \<not> (x \<noteq> [] \<and> blank_line x) \<and> \<not> indented_dash x) (splitlines (written t))"
proof -
  have a: "splitlines (written t) = (if filtered t = [] then [[]] else filtered t)"
    by (rule splitlines_written)
  have b: "filtered t = filter (\<lambda>x. \<not> (x \<noteq> [] \<and> blank_line x) \<and> \<not> indented_dash x) (splitlines t)"
    by (rule filtered_eq)
  have "list_all (\<lambda>x. \<not> (x \<noteq> [] \<and> blank_line x) \<and> \<not> indented_dash x)
      (filter (\<lambda>x. \<not> (x \<noteq> [] \<and> blank_line x) \<and> \<not> indented_dash x) (splitlines t))"
    by (simp add: list_all_iff)
  then have "list_all (\<lambda>x. \<not> (x \<noteq> [] \<and> blank_line x) \<and> \<not> indented_dash x) (filtered t)"
    by (simp only: b [symmetric])
  moreover have "\<not> indented_dash []" by (simp add: indented_dash_def)
  ultimately have c: "list_all (\<lambda>x. \<not> (x \<noteq> [] \<and> blank_line x) \<and> \<not> indented_dash x)
      (splitlines (written t))"
    by (simp add: a)
  from a b c show ?thesis by blast
qed

text \<open>
  Claim C9 as stated fails: the text \<open>a\<close>, empty line, \<open>b\<close> is written with its empty
  line, which is blank.
\<close>

theorem written_keeps_empty_line:
  "written (str ''a'' @ [10, 10] @ str ''b'') = str ''a'' @ [10, 10] @ str ''b'' @ [10]
   \<and> splitlines (written (str ''a'' @ [10, 10] @ str ''b'')) = [str ''a'', [], str ''b'']
   \<and> blank_line []"
proof -
  have s1: "str ''a'' @ [10, 10] @ str ''b'' = [97, 10, 10, 98]"
    by (simp add: str_def)
  have a4: "splitlines [97, 10, 10, 98] = [[97], [], [98]]"
    by (simp add: splitlines_def is_linebreak_def)
  have a5: "filtered [97, 10, 10, 98] = [[97], [], [98]]"
    by (simp add: filtered_def a4 re_match_blank_def re_match_empty_item_def isspace_def)
  have a6: "written [97, 10, 10, 98] = [97, 10, 10, 98, 10]"
    by (simp add: written_def a5)
  have a7: "splitlines [97, 10, 10, 98, 10] = [[97], [], [98]]"
    by (simp add: splitlines_def is_linebreak_def)
  show ?thesis
    unfolding s1 a6 a7 by (simp add: blank_line_def str_def)
qed

section \<open>Properties of the helper functions\<close>

lemma dict_set_fresh: "k \<notin> fst ` set d \<Longrightarrow> dict_set d k v = d @ [(k, v)]"
  by (induction d) auto

lemma foldl_dict_set_distinct:
  "distinct (map fst (d @ xs)) \<Longrightarrow> foldl (\<lambda>d (k, v). dict_set d k v) d xs = d @ xs"
proof (induction xs arbitrary: d)
  case Nil
  then show ?case by simp
next
  case (Cons x xs)
  obtain k v where x: "x = (k, v)" by (cases x)
  have "k \<notin> fst ` set d" using Cons.prems x by auto
  then have "dict_set d k v = d @ [x]" by (simp add: dict_set_fresh x)
  moreover have "distinct (map fst ((d @ [x]) @ xs))" using Cons.prems by simp
  ultimately show ?case using Cons.IH [of "d @ [x]"] by (simp add: x)
qed

lemma dict_of_distinct: "distinct (map fst xs) \<Longrightarrow> dict_of xs = xs"
  using foldl_dict_set_distinct [of "[]" xs] by (simp add: dict_of_def)

lemma distinct_fst_insort_key:
  "distinct (map fst (insort_key f a ys)) \<longleftrightarrow> fst a \<notin> fst ` set ys \<and> distinct (map fst ys)"
  by (induction ys) (auto simp: set_insort_key)

lemma distinct_fst_sort_key:
  "distinct (map fst (sort_key f xs)) \<longleftrightarrow> distinct (map fst xs)"
  by (induction xs) (auto simp: distinct_fst_insort_key)

lemma sorted_hd_Min:
  assumes "sorted (map f ys)" and "ys \<noteq> []"
  shows "f (hd ys) = Min (f ` set ys)"
proof -
  obtain y rest where ys: "ys = y # rest" using assms(2) by (cases ys) auto
  have "\<forall>z \<in> set rest. f y \<le> f z" using assms(1) ys by auto
  then have "Min (f ` set ys) = f y"
    unfolding ys by (intro Min_eqI) auto
  then show ?thesis by (simp add: ys)
qed

text \<open>
  Claim C3. For a dictionary from names to numeric identifiers (an association list with
  distinct keys), \<open>min_hash_value_by_value\<close> returns \<open>None\<close> when the dictionary is empty
  and otherwise the value of an entry whose identifier is the smallest of all.
\<close>

theorem min_hash_value_by_value_smallest:
  fixes x :: "(pystr \<times> int) list"
  assumes "distinct (map fst x)"
  shows "min_hash_value_by_value x = (if x = [] then None else Some (Min (snd ` set x)))
       \<and> (x \<noteq> [] \<longrightarrow> (\<exists>k. (k, Min (snd ` set x)) \<in> set x))"
proof (cases "x = []")
  case True
  then show ?thesis by (simp add: min_hash_value_by_value_def dict_of_def)
next
  case False
  let ?ys = "sort_key snd x"
  have ne: "?ys \<noteq> []" using False by (metis length_sort list.size(3) length_0_conv)
  have "dict_of ?ys = ?ys"
    using assms by (intro dict_of_distinct) (simp add: distinct_fst_sort_key)
  then have "min_hash_value_by_value x = Some (snd (hd ?ys))"
    using ne by (cases ?ys) (simp_all add: min_hash_value_by_value_def)
  moreover have "snd (hd ?ys) = Min (snd ` set ?ys)"
    using ne by (intro sorted_hd_Min) simp
  moreover have "\<exists>k. (k, Min (snd ` set x)) \<in> set x"
  proof -
    have "Min (snd ` set x) \<in> snd ` set x"
      using False by (intro Min_in) auto
    then obtain p where "p \<in> set x" "snd p = Min (snd ` set x)" by auto
    then have "(fst p, Min (snd ` set x)) \<in> set x" by (metis prod.collapse)
    then show ?thesis by blast
  qed
  ultimately show ?thesis using False by simp
qed

theorem min_hash_value_by_value_smallest_witness:
  "distinct (map fst [(str ''b'', 7::int), (str ''a'', 3), (str ''c'', 5)])
   \<and> min_hash_value_by_value [(str ''b'', 7::int), (str ''a'', 3), (str ''c'', 5)] = Some 3
   \<and> min_hash_value_by_value ([] :: (pystr \<times> int) list) = None"
proof -
  have d: "distinct (map fst [(str ''b'', 7::int), (str ''a'', 3), (str ''c'', 5)])"
    by (simp add: str_def)
  have e: "distinct (map fst ([] :: (pystr \<times> int) list))" by simp
  show ?thesis
    using min_hash_value_by_value_smallest [OF d] min_hash_value_by_value_smallest [OF e] d
    by simp
qed

section \<open>What the loops add to the store\<close>

lemma requests_nb_create: "requests (snd (nb_create e p s)) = requests s @ [p]"
  by (simp add: nb_create_def)

lemma nb_create_accepted:
  "accepts e s p \<Longrightarrow>
   nb_create e p s =
     (Inr (next_id s),
      s\<lparr>rows := rows s @ [(next_id s, stored p)], next_id := Suc (next_id s),
        requests := requests s @ [p]\<rparr>)"
  by (simp add: nb_create_def)

lemma nb_create_refused:
  "\<not> accepts e s p \<Longrightarrow> nb_create e p s = (Inl RequestError, s\<lparr>requests := requests s @ [p]\<rparr>)"
  by (simp add: nb_create_def)

lemma endpoint_of_stored [simp]: "endpoint_of (stored p) = endpoint_of p"
  by (cases p) simp_all

lemma requests_create_each: "requests (create_each e ps s) = requests s @ ps"
  by (induction ps arbitrary: s) (simp_all add: requests_nb_create)

lemma rows_nb_create:
  "rows (snd (nb_create e p s)) = rows s @ (if accepts e s p then [(next_id s, stored p)] else [])"
  by (simp add: nb_create_def)

lemma rows_create_each:
  "\<exists>new. rows (create_each e ps s) = rows s @ new \<and> snd ` set new \<subseteq> stored ` set ps"
proof (induction ps arbitrary: s)
  case Nil
  then show ?case by simp
next
  case (Cons p ps)
  from Cons.IH [of "snd (nb_create e p s)"] obtain new where
    new: "rows (create_each e ps (snd (nb_create e p s))) = rows (snd (nb_create e p s)) @ new"
      "snd ` set new \<subseteq> stored ` set ps"
    by blast
  show ?case
  proof (intro exI conjI)
    show "rows (create_each e (p # ps) s)
        = rows s @ ((if accepts e s p then [(next_id s, stored p)] else []) @ new)"
      using new(1) by (simp add: rows_nb_create)
    show "snd ` set ((if accepts e s p then [(next_id s, stored p)] else []) @ new)
        \<subseteq> stored ` set (p # ps)"
      using new(2) by auto
  qed
qed

lemma nb_all_append:
  "rows s' = rows s @ new \<Longrightarrow>
   nb_all ep s' = nb_all ep s @ filter (\<lambda>r. endpoint_of (snd r) = ep) new"
  by (simp add: nb_all_def)

lemma nb_all_create_each_other:
  assumes "\<forall>p \<in> set ps. endpoint_of p \<noteq> ep"
  shows "nb_all ep (create_each e ps s) = nb_all ep s"
proof -
  obtain new where new: "rows (create_each e ps s) = rows s @ new"
      "snd ` set new \<subseteq> stored ` set ps"
    using rows_create_each by blast
  have "endpoint_of (snd r) \<noteq> ep" if "r \<in> set new" for r
  proof -
    from that new(2) obtain p where "p \<in> set ps" "snd r = stored p" by auto
    then show ?thesis using assms by auto
  qed
  then have "filter (\<lambda>r. endpoint_of (snd r) = ep) new = []"
    by (simp add: filter_empty_conv)
  then show ?thesis using nb_all_append [OF new(1)] by simp
qed

lemma rows_create_each_accepting:
  "\<forall>s p. accepts e s p \<Longrightarrow>
   map snd (rows (create_each e ps s)) = map snd (rows s) @ map stored ps"
  by (induction ps arbitrary: s) (simp_all add: rows_nb_create)

lemma create_host_refused:
  "\<not> accepts e s (DeviceP (fst host) site dType role) \<Longrightarrow>
   create_host e site dType role host s = snd (nb_create e (DeviceP (fst host) site dType role) s)"
  by (simp add: create_host_def nb_create_def)

lemma create_host_accepted:
  "accepts e s (DeviceP (fst host) site dType role) \<Longrightarrow>
   create_host e site dType role host s =
     (if is_ip_address (snd host) then
        snd (nb_create e (InterfaceP (next_id s) (str ''default'') (str ''other'') None)
               (snd (nb_create e (DeviceP (fst host) site dType role) s)))
      else if re_match_mac (lower (snd host)) then
        snd (nb_create e
               (InterfaceP (next_id s) (str ''default'') (str ''other'') (Some (lower (snd host))))
               (snd (nb_create e (DeviceP (fst host) site dType role) s)))
      else snd (nb_create e (DeviceP (fst host) site dType role) s))"
  by (simp add: create_host_def nb_create_def)

lemma rows_create_host:
  "\<exists>new. rows (create_host e site dType role host s) = rows s @ new
     \<and> (\<forall>r \<in> set new. snd r = DeviceP (fst host) site dType role
            \<or> endpoint_of (snd r) = Interfaces)"
proof (cases "accepts e s (DeviceP (fst host) site dType role)")
  case False
  then show ?thesis by (simp add: create_host_refused rows_nb_create)
next
  case True
  let ?d = "DeviceP (fst host) site dType role"
  let ?s1 = "snd (nb_create e ?d s)"
  have r1: "rows ?s1 = rows s @ [(next_id s, ?d)]"
    using True by (simp add: rows_nb_create)
  have ifc: "\<exists>new. rows (snd (nb_create e p ?s1)) = rows s @ new
     \<and> (\<forall>r \<in> set new. snd r = ?d \<or> endpoint_of (snd r) = Interfaces)"
    if "endpoint_of p = Interfaces" for p
  proof (intro exI conjI)
    show "rows (snd (nb_create e p ?s1))
        = rows s @ ((next_id s, ?d) # (if accepts e ?s1 p then [(next_id ?s1, stored p)] else []))"
      using True by (simp add: rows_nb_create)
    show "\<forall>r \<in> set ((next_id s, ?d) # (if accepts e ?s1 p then [(next_id ?s1, stored p)] else [])).
        snd r = ?d \<or> endpoint_of (snd r) = Interfaces"
      using that by simp
  qed
  have dev: "\<exists>new. rows ?s1 = rows s @ new
     \<and> (\<forall>r \<in> set new. snd r = ?d \<or> endpoint_of (snd r) = Interfaces)"
    using r1 by simp
  show ?thesis
    unfolding create_host_accepted [OF True]
    using ifc dev by (simp del: stored.simps)
qed

lemma rows_devices_loop:
  "\<exists>new. rows (devices_loop e site dType role hosts s) = rows s @ new
     \<and> (\<forall>r \<in> set new. (\<exists>n. snd r = DeviceP n site dType role)
            \<or> endpoint_of (snd r) = Interfaces)"
proof (induction hosts arbitrary: s)
  case Nil
  then show ?case by simp
next
  case (Cons host hosts)
  obtain new1 where n1: "rows (create_host e site dType role host s) = rows s @ new1"
      "\<forall>r \<in> set new1. snd r = DeviceP (fst host) site dType role
            \<or> endpoint_of (snd r) = Interfaces"
    using rows_create_host by blast
  obtain new2 where n2: "rows (devices_loop e site dType role hosts (create_host e site dType role host s))
        = rows (create_host e site dType role host s) @ new2"
      "\<forall>r \<in> set new2. (\<exists>n. snd r = DeviceP n site dType role)
            \<or> endpoint_of (snd r) = Interfaces"
    using Cons.IH by blast
  have "rows (devices_loop e site dType role (host # hosts) s) = rows s @ (new1 @ new2)"
    using n1(1) n2(1) by simp
  moreover have "\<forall>r \<in> set (new1 @ new2). (\<exists>n. snd r = DeviceP n site dType role)
            \<or> endpoint_of (snd r) = Interfaces"
    using n1(2) n2(2) by auto
  ultimately show ?case by blast
qed

lemma rows_set_primary [simp]: "rows (set_primary address device ip s) = rows s"
  by (simp add: set_primary_def)

lemma rows_addresses_loop:
  "\<exists>new. rows (snd (addresses_loop e devices interfaces pre hosts s)) = rows s @ new
     \<and> (\<forall>r \<in> set new. endpoint_of (snd r) = IPAddresses)"
proof (induction hosts arbitrary: s)
  case Nil
  then show ?case by simp
next
  case (Cons host hosts)
  let ?key = "snd host @ str ''/'' @ (if is_ip_v4_address (snd host) then str ''32'' else str ''128'')"
  show ?case
  proof (cases "dict_has pre ?key")
    case True
    then show ?thesis using Cons.IH [of s] by (simp add: Let_def)
  next
    case False
    show ?thesis
    proof (cases "dict_get devices (fst host)")
      case None
      then show ?thesis using False by (simp add: Let_def)
    next
      case (Some device)
      show ?thesis
      proof (cases "dict_get interfaces device")
        case None
        then show ?thesis using False Some by (simp add: Let_def)
      next
        case (Some interface)
        let ?p = "IPAddressP (snd host) (str ''dcim.interface'') interface"
        let ?s1 = "snd (nb_create e ?p s)"
        let ?s2 = "if accepts e s ?p then set_primary (snd host) device (next_id s) ?s1 else ?s1"
        have step: "addresses_loop e devices interfaces pre (host # hosts) s
            = addresses_loop e devices interfaces pre hosts ?s2"
          using False \<open>dict_get devices (fst host) = Some device\<close> Some
          by (simp add: Let_def nb_create_def)
        have r2: "rows ?s2 = rows s @ (if accepts e s ?p then [(next_id s, stored ?p)] else [])"
          by (simp add: rows_nb_create)
        obtain new where new: "rows (snd (addresses_loop e devices interfaces pre hosts ?s2))
            = rows ?s2 @ new" "\<forall>r \<in> set new. endpoint_of (snd r) = IPAddresses"
          using Cons.IH [of ?s2] by blast
        have "rows (snd (addresses_loop e devices interfaces pre (host # hosts) s))
            = rows s @ ((if accepts e s ?p then [(next_id s, stored ?p)] else []) @ new)"
          using new(1) r2 by (simp only: step append_assoc)
        moreover have "\<forall>r \<in> set ((if accepts e s ?p then [(next_id s, stored ?p)] else []) @ new).
            endpoint_of (snd r) = IPAddresses"
          using new(2) by auto
        ultimately show ?thesis by blast
      qed
    qed
  qed
qed

lemma rows_permissions_loop:
  "\<exists>new. rows (snd (permissions_loop e groups cts pcs s)) = rows s @ new
     \<and> (\<forall>r \<in> set new. endpoint_of (snd r) = Permissions)"
proof (induction pcs arbitrary: s)
  case Nil
  then show ?case by simp
next
  case (Cons pc pcs)
  show ?case
  proof (cases "those (map (dict_get groups) (pc_groups pc))")
    case None
    then show ?thesis by simp
  next
    case (Some gids)
    let ?p = "PermissionP (pc_name pc) (pc_enabled pc) gids (pc_actions pc)
                (filter (\<lambda>ct. ct \<notin> set (pc_exclude_objects pc)) cts)"
    let ?s1 = "snd (nb_create e ?p s)"
    obtain new where new: "rows (snd (permissions_loop e groups cts pcs ?s1)) = rows ?s1 @ new"
        "\<forall>r \<in> set new. endpoint_of (snd r) = Permissions"
      using Cons.IH [of ?s1] by blast
    have "rows (snd (permissions_loop e groups cts (pc # pcs) s))
        = rows s @ ((if accepts e s ?p then [(next_id s, stored ?p)] else []) @ new)"
      using new(1) Some by (simp add: rows_nb_create)
    moreover have "\<forall>r \<in> set ((if accepts e s ?p then [(next_id s, stored ?p)] else []) @ new).
        endpoint_of (snd r) = Permissions"
      using new(2) by auto
    ultimately show ?thesis by blast
  qed
qed

section \<open>Addresses: IP syntax and the MAC pattern\<close>
















lemma map_filter_append:
  "List.map_filter f (xs @ ys) = List.map_filter f xs @ List.map_filter f ys"
  by (simp add: List.map_filter_def)

lemma devices_loop_append:
  "devices_loop e site dType role (hs1 @ hs2) s
     = devices_loop e site dType role hs2 (devices_loop e site dType role hs1 s)"
  by (induction hs1 arbitrary: s) simp_all

lemma devices_stage_append:
  "devices_stage e (xs @ ys) sites deviceTypes roles s
     = devices_loop e (min_hash_value_by_value sites) (min_hash_value_by_value deviceTypes)
         (min_hash_value_by_value roles)
         (filter (\<lambda>host. \<not> dict_has (index_by_key Devices s) (fst host))
            (List.map_filter host_of ys))
         (devices_stage e xs sites deviceTypes roles s)"
  by (simp add: devices_stage_def map_filter_append devices_loop_append Let_def)

lemma devices_stage_host:
  assumes "host_of entry = Some (n, a)" and "\<not> dict_has (index_by_key Devices s) n"
  shows "devices_stage e (before @ [entry]) sites deviceTypes roles s
     = create_host e (min_hash_value_by_value sites) (min_hash_value_by_value deviceTypes)
         (min_hash_value_by_value roles) (n, a)
         (devices_stage e before sites deviceTypes roles s)"
  unfolding devices_stage_append using assms by (simp add: List.map_filter_def)


lemma device_of_stored [simp]: "device_of (stored p) = device_of p"
  by (cases p) simp_all

lemma next_id_nb_create: "next_id s \<le> next_id (snd (nb_create e p s))"
  by (simp add: nb_create_def)

lemma next_id_create_host: "next_id s \<le> next_id (create_host e site dType role host s)"
proof (cases "accepts e s (DeviceP (fst host) site dType role)")
  case True
  have "next_id s \<le> next_id (snd (nb_create e (DeviceP (fst host) site dType role) s))"
    by (rule next_id_nb_create)
  moreover have "next_id (snd (nb_create e (DeviceP (fst host) site dType role) s))
      \<le> next_id (snd (nb_create e p (snd (nb_create e (DeviceP (fst host) site dType role) s))))" for p
    by (rule next_id_nb_create)
  ultimately show ?thesis
    unfolding create_host_accepted [OF True] by (simp del: stored.simps) (meson le_trans)
next
  case False
  then show ?thesis by (simp add: create_host_refused next_id_nb_create)
qed


lemma next_id_devices_loop: "next_id s \<le> next_id (devices_loop e site dType role hosts s)"
proof (induction hosts arbitrary: s)
  case Nil
  then show ?case by simp
next
  case (Cons host hosts)
  show ?case
    using next_id_create_host [of s e site dType role host]
      Cons.IH [of "create_host e site dType role host s"]
    by simp
qed





section \<open>The import of one host\<close>

lemma nb_all_rows_append:
  "nb_all ep (s\<lparr>rows := rows s @ [r]\<rparr>) = nb_all ep s @ (if endpoint_of (snd r) = ep then [r] else [])"
  by (simp add: nb_all_def)

lemma nb_all_other_fields [simp]:
  "nb_all ep (s\<lparr>requests := q\<rparr>) = nb_all ep s"
  "nb_all ep (s\<lparr>next_id := n\<rparr>) = nb_all ep s"
  "nb_all ep (s\<lparr>primary_ip4 := d4\<rparr>) = nb_all ep s"
  "nb_all ep (s\<lparr>primary_ip := d6\<rparr>) = nb_all ep s"
  by (simp_all add: nb_all_def)

lemma dict_get_dict_set: "dict_get (dict_set d k v) k = Some v"
  by (induction d) (auto simp: dict_get_def)

lemma min_hash_value_by_value_single: "min_hash_value_by_value [(k, v)] = Some v"
  by (simp add: min_hash_value_by_value_def dict_of_def)

lemma index_by_key_single:
  "nb_all ep s = [(i, p)] \<Longrightarrow> index_by_key ep s = [(key_of p, i)]"
  by (simp add: index_by_key_def dict_of_def)

lemma index_by_key_empty: "nb_all ep s = [] \<Longrightarrow> index_by_key ep s = []"
  by (simp add: index_by_key_def dict_of_def)

lemma IPv4Address_10_0_0_5: "IPv4Address (str ''10.0.0.5'') = Some 167772165"
  by (simp add: IPv4Address_def str_def parse_octet_def is_digit_def
        int_of_digits_def digit_value_def)

lemma create_host_ip_accepted:
  assumes "accepts e s (DeviceP n site dType role)"
    and "is_ip_address a"
    and "accepts e (s\<lparr>rows := rows s @ [(next_id s, DeviceP n site dType role)],
                       next_id := Suc (next_id s),
                       requests := requests s @ [DeviceP n site dType role]\<rparr>)
           (InterfaceP (next_id s) (str ''default'') (str ''other'') None)"
  shows "create_host e site dType role (n, a) s =
     s\<lparr>rows := rows s @ [(next_id s, DeviceP n site dType role),
                         (Suc (next_id s), InterfaceP (next_id s) (str ''default'') (str ''other'') None)],
       next_id := Suc (Suc (next_id s)),
       requests := requests s @ [DeviceP n site dType role,
                                 InterfaceP (next_id s) (str ''default'') (str ''other'') None]\<rparr>"
  using assms by (simp add: create_host_def nb_create_def)

text \<open>
  Claim C6. The network map is the one host \<open>h1\<close> with the address \<open>10.0.0.5\<close>; the
  store holds exactly one site, one device type and one role, no device, interface or
  address, and accepts what it is sent; the indexes are those of the store, as the
  earlier stages fetch them. After the import the store holds one device \<open>h1\<close>,
  referring to that site, device type and role, one interface of this device, one address
  record \<open>10.0.0.5/32\<close> assigned to this interface, and the primary IPv4 address of
  the device is this record.
\<close>

theorem host_import_example:
  assumes acc: "\<forall>s p. accepts e s p"
    and net: "args_netMap a =
        Some [Obj (Some (str ''host'')) (Some (str ''h1'')) (Some (str ''10.0.0.5''))]"
    and site: "nb_all Sites s = [(site_id, SiteP site_name site_slug)]"
    and dtype: "nb_all DeviceTypes s = [(type_id, DeviceTypeP model type_slug manufacturer)]"
    and role: "nb_all DeviceRoles s = [(role_id, RoleP role_name role_slug vm_role color)]"
    and none: "nb_all Devices s = []" "nb_all Interfaces s = []" "nb_all IPAddresses s = []"
    and s': "s' = snd (net_map_stage e a (index_by_key Sites s) (index_by_key DeviceTypes s)
                        (index_by_key DeviceRoles s) s)"
  shows "nb_all Devices s' =
           [(next_id s, DeviceP (str ''h1'') (Some site_id) (Some type_id) (Some role_id))]
       \<and> nb_all Interfaces s' =
           [(next_id s + 1, InterfaceP (next_id s) (str ''default'') (str ''other'') None)]
       \<and> nb_all IPAddresses s' =
           [(next_id s + 2, IPAddressP (str ''10.0.0.5/32'') (str ''dcim.interface'') (next_id s + 1))]
       \<and> dict_get (primary_ip4 s') (next_id s) = Some (next_id s + 2)"
proof -
  let ?map = "[Obj (Some (str ''host'')) (Some (str ''h1'')) (Some (str ''10.0.0.5''))]"
  let ?dev = "DeviceP (str ''h1'') (Some site_id) (Some type_id) (Some role_id)"
  let ?ifc = "InterfaceP (next_id s) (str ''default'') (str ''other'') None"
  let ?adr = "IPAddressP (str ''10.0.0.5'') (str ''dcim.interface'') (Suc (next_id s))"
  have seg: "List.map_filter segment_of ?map = []"
    by (simp add: List.map_filter_def str_def)
  have hosts: "List.map_filter host_of ?map = [(str ''h1'', str ''10.0.0.5'')]"
    by (simp add: List.map_filter_def str_def)
  have ip: "is_ip_address (str ''10.0.0.5'')" "is_ip_v4_address (str ''10.0.0.5'')"
    by (simp_all add: is_ip_address_def is_ip_v4_address_def IPv4Address_10_0_0_5)
  have st: "stored ?adr = IPAddressP (str ''10.0.0.5/32'') (str ''dcim.interface'') (Suc (next_id s))"
    by (simp add: ip) (simp add: str_def)
  have key: "str ''10.0.0.5'' @ str ''/'' @ str ''32'' = str ''10.0.0.5/32''"
    by (simp add: str_def)
  have idx: "index_by_key Sites s = [(site_name, site_id)]"
      "index_by_key DeviceTypes s = [(model, type_id)]"
      "index_by_key DeviceRoles s = [(role_name, role_id)]"
    by (simp_all add: index_by_key_single site dtype role)
  \<comment> \<open>the prefixes: no segment, nothing is sent\<close>
  have s1: "snd (prefixes_stage e ?map (index_by_key Sites s) s) = s"
    unfolding prefixes_stage_def seg by (simp add: Let_def)
  \<comment> \<open>the device and its interface\<close>
  define s2 where "s2 = s\<lparr>rows := rows s @ [(next_id s, ?dev), (Suc (next_id s), ?ifc)],
       next_id := Suc (Suc (next_id s)), requests := requests s @ [?dev, ?ifc]\<rparr>"
  have dev: "devices_stage e ?map (index_by_key Sites s) (index_by_key DeviceTypes s)
      (index_by_key DeviceRoles s) s = s2"
    unfolding devices_stage_def hosts idx s2_def
    using acc ip(1)
    by (simp add: index_by_key_empty none dict_has_def min_hash_value_by_value_single
        create_host_ip_accepted)
  have all2: "nb_all Devices s2 = [(next_id s, ?dev)]"
      "nb_all Interfaces s2 = [(Suc (next_id s), ?ifc)]"
      "nb_all IPAddresses s2 = []"
    using none by (simp_all add: s2_def nb_all_def)
  have idx2: "index_by_key Devices s2 = [(str ''h1'', next_id s)]"
      "index_interfaces s2 = [(next_id s, Suc (next_id s))]"
      "index_by_key IPAddresses s2 = []"
    by (simp_all add: index_by_key_single index_by_key_empty all2 index_interfaces_def
        List.map_filter_def dict_of_def)
  \<comment> \<open>the address and the primary address of the device\<close>
  define s3 where "s3 = s2\<lparr>rows := rows s2 @ [(next_id s2, stored ?adr)],
       next_id := Suc (next_id s2), requests := requests s2 @ [?adr]\<rparr>"
  have cr: "nb_create e ?adr s2 = (Inr (next_id s2), s3)"
    using acc by (simp add: nb_create_def s3_def)
  have n2: "next_id s2 = Suc (Suc (next_id s))" by (simp add: s2_def)
  have all3: "nb_all Devices s3 = [(next_id s, ?dev)]"
    using all2(1) unfolding s3_def st by (simp add: nb_all_def)
  have sp: "set_primary (str ''10.0.0.5'') (next_id s) (next_id s2) s3
      = s3\<lparr>primary_ip4 := dict_set (primary_ip4 s3) (next_id s) (next_id s2)\<rparr>"
    by (simp add: set_primary_def all3 ip)
  have adr: "addresses_stage e ?map s2
      = (None, s3\<lparr>primary_ip4 := dict_set (primary_ip4 s3) (next_id s) (next_id s2)\<rparr>)"
    unfolding addresses_stage_def hosts idx2
    by (simp add: ip dict_has_def dict_get_def key cr sp)
  have fin: "s' = s3\<lparr>primary_ip4 := dict_set (primary_ip4 s3) (next_id s) (next_id s2)\<rparr>"
    unfolding s' net_map_stage_def net by (simp add: s1 dev adr)
  have "nb_all Devices s' = [(next_id s, ?dev)]"
    by (simp add: fin all3)
  moreover have "nb_all Interfaces s' = [(next_id s + 1, ?ifc)]"
    using all2(2) unfolding fin s3_def st by (simp add: nb_all_def)
  moreover have "nb_all IPAddresses s' =
      [(next_id s + 2, IPAddressP (str ''10.0.0.5/32'') (str ''dcim.interface'') (next_id s + 1))]"
    using all2(3) unfolding fin s3_def st by (simp add: nb_all_def n2)
  moreover have "dict_get (primary_ip4 s') (next_id s) = Some (next_id s + 2)"
    by (simp add: fin dict_get_dict_set n2)
  ultimately show ?thesis by simp
qed

theorem host_import_example_witness:
  "nb_all Devices
     (snd (net_map_stage accepting
        (no_args\<lparr>args_netMap :=
           Some [Obj (Some (str ''host'')) (Some (str ''h1'')) (Some (str ''10.0.0.5''))]\<rparr>)
        (index_by_key Sites seeded_store) (index_by_key DeviceTypes seeded_store)
        (index_by_key DeviceRoles seeded_store) seeded_store))
     = [(4, DeviceP (str ''h1'') (Some 1) (Some 2) (Some 3))]
   \<and> nb_all Interfaces
     (snd (net_map_stage accepting
        (no_args\<lparr>args_netMap :=
           Some [Obj (Some (str ''host'')) (Some (str ''h1'')) (Some (str ''10.0.0.5''))]\<rparr>)
        (index_by_key Sites seeded_store) (index_by_key DeviceTypes seeded_store)
        (index_by_key DeviceRoles seeded_store) seeded_store))
     = [(5, InterfaceP 4 (str ''default'') (str ''other'') None)]
   \<and> nb_all IPAddresses
     (snd (net_map_stage accepting
        (no_args\<lparr>args_netMap :=
           Some [Obj (Some (str ''host'')) (Some (str ''h1'')) (Some (str ''10.0.0.5''))]\<rparr>)
        (index_by_key Sites seeded_store) (index_by_key DeviceTypes seeded_store)
        (index_by_key DeviceRoles seeded_store) seeded_store))
     = [(6, IPAddressP (str ''10.0.0.5/32'') (str ''dcim.interface'') 5)]
   \<and> dict_get (primary_ip4
     (snd (net_map_stage accepting
        (no_args\<lparr>args_netMap :=
           Some [Obj (Some (str ''host'')) (Some (str ''h1'')) (Some (str ''10.0.0.5''))]\<rparr>)
        (index_by_key Sites seeded_store) (index_by_key DeviceTypes seeded_store)
        (index_by_key DeviceRoles seeded_store) seeded_store))) 4 = Some 6"
proof -
  have acc: "\<forall>s p. accepts accepting s p" by (simp add: accepting_def)
  have net: "args_netMap (no_args\<lparr>args_netMap :=
           Some [Obj (Some (str ''host'')) (Some (str ''h1'')) (Some (str ''10.0.0.5''))]\<rparr>)
      = Some [Obj (Some (str ''host'')) (Some (str ''h1'')) (Some (str ''10.0.0.5''))]"
    by simp
  have site: "nb_all Sites seeded_store = [(1, SiteP (str ''HQ'') (str ''hq''))]"
    and dtype: "nb_all DeviceTypes seeded_store = [(2, DeviceTypeP (str ''Model-X'') (str ''model-x'') None)]"
    and role: "nb_all DeviceRoles seeded_store = [(3, RoleP (str ''Sensor'') (str ''sensor'') True (str ''336699''))]"
    and none: "nb_all Devices seeded_store = []" "nb_all Interfaces seeded_store = []"
      "nb_all IPAddresses seeded_store = []"
    by (simp_all add: seeded_store_def empty_store_def nb_all_def)
  have n: "next_id seeded_store = 4" by (simp add: seeded_store_def)
  show ?thesis
    using host_import_example [OF acc net site dtype role none refl]
    by (simp add: n)
qed

section \<open>The stages only add to the store\<close>

lemma adds_only_refl: "adds_only eps s s"
  by (simp add: adds_only_def)

lemma adds_only_trans:
  assumes "adds_only eps1 s s'" and "adds_only eps2 s' s''"
  shows "adds_only (eps1 \<union> eps2) s s''"
proof -
  from assms(1) obtain r1 q1 where 1: "rows s' = rows s @ r1" "requests s' = requests s @ q1"
      "list_all (\<lambda>r. endpoint_of (snd r) \<in> eps1) r1" "list_all (\<lambda>p. endpoint_of p \<in> eps1) q1"
      "prefix_vrf s' = prefix_vrf s" "content_types s' = content_types s" "next_id s \<le> next_id s'"
    unfolding adds_only_def by blast
  from assms(2) obtain r2 q2 where 2: "rows s'' = rows s' @ r2" "requests s'' = requests s' @ q2"
      "list_all (\<lambda>r. endpoint_of (snd r) \<in> eps2) r2" "list_all (\<lambda>p. endpoint_of p \<in> eps2) q2"
      "prefix_vrf s'' = prefix_vrf s'" "content_types s'' = content_types s'"
      "next_id s' \<le> next_id s''"
    unfolding adds_only_def by blast
  show ?thesis
    unfolding adds_only_def
  proof (intro exI conjI)
    show "rows s'' = rows s @ (r1 @ r2)" using 1(1) 2(1) by simp
    show "requests s'' = requests s @ (q1 @ q2)" using 1(2) 2(2) by simp
    show "list_all (\<lambda>r. endpoint_of (snd r) \<in> eps1 \<union> eps2) (r1 @ r2)"
      using 1(3) 2(3) by (auto simp: list_all_iff)
    show "list_all (\<lambda>p. endpoint_of p \<in> eps1 \<union> eps2) (q1 @ q2)"
      using 1(4) 2(4) by (auto simp: list_all_iff)
    show "prefix_vrf s'' = prefix_vrf s" using 1(5) 2(5) by simp
    show "content_types s'' = content_types s" using 1(6) 2(6) by simp
    show "next_id s \<le> next_id s''" using 1(7) 2(7) by simp
  qed
qed

lemma adds_only_mono:
  assumes "adds_only eps s s'" and "eps \<subseteq> eps'"
  shows "adds_only eps' s s'"
proof -
  from assms(1) obtain r1 q1 where 1: "rows s' = rows s @ r1" "requests s' = requests s @ q1"
      "list_all (\<lambda>r. endpoint_of (snd r) \<in> eps) r1" "list_all (\<lambda>p. endpoint_of p \<in> eps) q1"
      "prefix_vrf s' = prefix_vrf s" "content_types s' = content_types s" "next_id s \<le> next_id s'"
    unfolding adds_only_def by blast
  have "list_all (\<lambda>r. endpoint_of (snd r) \<in> eps') r1"
    using 1(3) assms(2) by (auto simp: list_all_iff)
  moreover have "list_all (\<lambda>p. endpoint_of p \<in> eps') q1"
    using 1(4) assms(2) by (auto simp: list_all_iff)
  ultimately show ?thesis
    unfolding adds_only_def using 1(1,2,5,6,7) by blast
qed

lemma adds_only_same:
  "adds_only eps s s' \<Longrightarrow> adds_only eps s' s'' \<Longrightarrow> adds_only eps s s''"
  using adds_only_trans [of eps s s' eps s''] by simp

lemma adds_only_nb_create: "adds_only {endpoint_of p} s (snd (nb_create e p s))"
proof (cases "accepts e s p")
  case True
  show ?thesis
    unfolding adds_only_def
    by (rule exI [of _ "[(next_id s, stored p)]"], rule exI [of _ "[p]"])
      (simp add: nb_create_def True)
next
  case False
  show ?thesis
    unfolding adds_only_def
    by (rule exI [of _ "[]"], rule exI [of _ "[p]"]) (simp add: nb_create_def False)
qed

lemma adds_only_create_each:
  "list_all (\<lambda>p. endpoint_of p \<in> eps) ps \<Longrightarrow> adds_only eps s (create_each e ps s)"
proof (induction ps arbitrary: s)
  case Nil
  show ?case by (simp only: create_each.simps adds_only_refl)
next
  case (Cons p ps)
  have p: "endpoint_of p \<in> eps" and ps: "list_all (\<lambda>p. endpoint_of p \<in> eps) ps"
    using Cons.prems by simp_all
  have "{endpoint_of p} \<subseteq> eps" using p by simp
  with adds_only_nb_create have 1: "adds_only eps s (snd (nb_create e p s))"
    by (rule adds_only_mono)
  have 2: "adds_only eps (snd (nb_create e p s)) (create_each e ps (snd (nb_create e p s)))"
    using ps by (rule Cons.IH)
  from 1 2 have "adds_only eps s (create_each e ps (snd (nb_create e p s)))"
    by (rule adds_only_same)
  then show ?case by (simp only: create_each.simps)
qed

lemma adds_only_permissions_loop:
  "adds_only {Permissions} s (snd (permissions_loop e groups cts pcs s))"
proof (induction pcs arbitrary: s)
  case Nil
  show ?case by (simp add: adds_only_refl)
next
  case (Cons pc pcs)
  show ?case
  proof (cases "those (map (dict_get groups) (pc_groups pc))")
    case None
    then show ?thesis by (simp add: adds_only_refl)
  next
    case (Some gids)
    let ?p = "PermissionP (pc_name pc) (pc_enabled pc) gids (pc_actions pc)
                (filter (\<lambda>ct. ct \<notin> set (pc_exclude_objects pc)) cts)"
    have 1: "adds_only {Permissions} s (snd (nb_create e ?p s))"
      using adds_only_nb_create [of ?p s e] by simp
    have 2: "adds_only {Permissions} (snd (nb_create e ?p s))
        (snd (permissions_loop e groups cts pcs (snd (nb_create e ?p s))))"
      by (rule Cons.IH)
    from 1 2 have "adds_only {Permissions} s
        (snd (permissions_loop e groups cts pcs (snd (nb_create e ?p s))))"
      by (rule adds_only_same)
    then show ?thesis using Some by simp
  qed
qed

lemma adds_only_create_host:
  "adds_only {Devices, Interfaces} s (create_host e site dType role host s)"
proof (cases "accepts e s (DeviceP (fst host) site dType role)")
  case False
  have "adds_only {Devices} s (snd (nb_create e (DeviceP (fst host) site dType role) s))"
    using adds_only_nb_create [of "DeviceP (fst host) site dType role" s e] by simp
  then show ?thesis
    unfolding create_host_refused [OF False] by (rule adds_only_mono) simp
next
  case True
  let ?s1 = "snd (nb_create e (DeviceP (fst host) site dType role) s)"
  have "adds_only {Devices} s ?s1"
    using adds_only_nb_create [of "DeviceP (fst host) site dType role" s e] by simp
  then have 1: "adds_only {Devices, Interfaces} s ?s1"
    by (rule adds_only_mono) simp
  have 2: "adds_only {Devices, Interfaces} s (snd (nb_create e (InterfaceP d nm t m) ?s1))" for d nm t m
  proof -
    have "adds_only {Interfaces} ?s1 (snd (nb_create e (InterfaceP d nm t m) ?s1))"
      using adds_only_nb_create [of "InterfaceP d nm t m" ?s1 e] by simp
    then have "adds_only {Devices, Interfaces} ?s1 (snd (nb_create e (InterfaceP d nm t m) ?s1))"
      by (rule adds_only_mono) simp
    with 1 show ?thesis by (rule adds_only_same)
  qed
  show ?thesis
    unfolding create_host_accepted [OF True] using 1 2 by (simp del: stored.simps)
qed

lemma adds_only_devices_loop:
  "adds_only {Devices, Interfaces} s (devices_loop e site dType role hosts s)"
proof (induction hosts arbitrary: s)
  case Nil
  show ?case by (simp add: adds_only_refl)
next
  case (Cons host hosts)
  have "adds_only {Devices, Interfaces} s
      (devices_loop e site dType role hosts (create_host e site dType role host s))"
    using adds_only_create_host Cons.IH by (rule adds_only_same)
  then show ?case by simp
qed

lemma adds_only_set_primary: "adds_only eps s (set_primary address device ip s)"
  unfolding adds_only_def
  by (rule exI [of _ "[]"], rule exI [of _ "[]"]) (simp add: set_primary_def)

lemma adds_only_addresses_loop:
  "adds_only {IPAddresses} s (snd (addresses_loop e devices interfaces pre hosts s))"
proof (induction hosts arbitrary: s)
  case Nil
  show ?case by (simp add: adds_only_refl)
next
  case (Cons host hosts)
  let ?key = "snd host @ str ''/'' @ (if is_ip_v4_address (snd host) then str ''32'' else str ''128'')"
  show ?case
  proof (cases "dict_has pre ?key")
    case True
    then show ?thesis using Cons.IH [of s] by (simp add: Let_def)
  next
    case False
    show ?thesis
    proof (cases "dict_get devices (fst host)")
      case None
      then show ?thesis using False by (simp add: Let_def adds_only_refl)
    next
      case (Some device)
      show ?thesis
      proof (cases "dict_get interfaces device")
        case None
        then show ?thesis using False Some by (simp add: Let_def adds_only_refl)
      next
        case (Some interface)
        let ?p = "IPAddressP (snd host) (str ''dcim.interface'') interface"
        let ?s1 = "snd (nb_create e ?p s)"
        let ?s2 = "if accepts e s ?p then set_primary (snd host) device (next_id s) ?s1 else ?s1"
        have step: "addresses_loop e devices interfaces pre (host # hosts) s
            = addresses_loop e devices interfaces pre hosts ?s2"
          using False \<open>dict_get devices (fst host) = Some device\<close> Some
          by (simp add: Let_def nb_create_def)
        have 1: "adds_only {IPAddresses} s ?s1"
          using adds_only_nb_create [of ?p s e] by simp
        have "adds_only {IPAddresses} ?s1 ?s2"
          by (simp add: adds_only_refl adds_only_set_primary del: stored.simps)
        with 1 have 2: "adds_only {IPAddresses} s ?s2" by (rule adds_only_same)
        have 3: "adds_only {IPAddresses} ?s2 (snd (addresses_loop e devices interfaces pre hosts ?s2))"
          by (rule Cons.IH)
        from 2 3 show ?thesis unfolding step by (rule adds_only_same)
      qed
    qed
  qed
qed

lemma adds_only_groups_stage: "adds_only {Groups} s (snd (groups_stage e a s))"
  unfolding groups_stage_def Let_def snd_conv
  by (rule adds_only_create_each) (simp add: list_all_iff)

lemma adds_only_permissions_stage:
  "adds_only {Permissions} s (snd (permissions_stage e a groups s))"
  unfolding permissions_stage_def Let_def by (rule adds_only_permissions_loop)

lemma adds_only_manufacturers_stage:
  "adds_only {Manufacturers} s (snd (manufacturers_stage e a s))"
  unfolding manufacturers_stage_def Let_def snd_conv
  by (rule adds_only_create_each) (simp add: list_all_iff)

lemma adds_only_roles_stage: "adds_only {DeviceRoles} s (snd (roles_stage e a s))"
  unfolding roles_stage_def Let_def snd_conv
  by (rule adds_only_create_each) (auto simp: list_all_iff)

lemma adds_only_device_types_stage:
  "adds_only {DeviceTypes} s (snd (device_types_stage e a manufacturers s))"
  unfolding device_types_stage_def Let_def snd_conv
  by (rule adds_only_create_each) (simp add: list_all_iff)

lemma adds_only_sites_stage: "adds_only {Sites} s (snd (sites_stage e a s))"
  unfolding sites_stage_def Let_def snd_conv
  by (rule adds_only_create_each) (simp add: list_all_iff)

lemma adds_only_prefixes_stage:
  "adds_only {Prefixes} s (snd (prefixes_stage e netMapJson sites s))"
  unfolding prefixes_stage_def Let_def snd_conv
  by (rule adds_only_create_each) (simp add: list_all_iff)

lemma adds_only_devices_stage:
  "adds_only {Devices, Interfaces} s (devices_stage e netMapJson sites deviceTypes roles s)"
  unfolding devices_stage_def Let_def by (rule adds_only_devices_loop)

lemma adds_only_addresses_stage:
  "adds_only {IPAddresses} s (snd (addresses_stage e netMapJson s))"
  unfolding addresses_stage_def Let_def by (rule adds_only_addresses_loop)

lemma nb_all_adds_only:
  assumes "adds_only eps s s'" and "ep \<notin> eps"
  shows "nb_all ep s' = nb_all ep s"
proof -
  from assms(1) obtain nr where nr: "rows s' = rows s @ nr"
      "list_all (\<lambda>r. endpoint_of (snd r) \<in> eps) nr"
    unfolding adds_only_def by blast
  have "filter (\<lambda>r. endpoint_of (snd r) = ep) nr = []"
    using nr(2) assms(2) by (auto simp: filter_empty_conv list_all_iff)
  then show ?thesis using nr(1) by (simp add: nb_all_def)
qed

lemma index_by_key_adds_only:
  "adds_only eps s s' \<Longrightarrow> ep \<notin> eps \<Longrightarrow> index_by_key ep s' = index_by_key ep s"
  by (simp add: index_by_key_def nb_all_adds_only)

lemma requests_adds_only:
  assumes "adds_only eps s s'" and "ep \<notin> eps"
  shows "filter (\<lambda>p. endpoint_of p = ep) (requests s') = filter (\<lambda>p. endpoint_of p = ep) (requests s)"
proof -
  from assms(1) obtain nq where nq: "requests s' = requests s @ nq"
      "list_all (\<lambda>p. endpoint_of p \<in> eps) nq"
    unfolding adds_only_def by blast
  have "filter (\<lambda>p. endpoint_of p = ep) nq = []"
    using nq(2) assms(2) by (auto simp: filter_empty_conv list_all_iff)
  then show ?thesis using nq(1) by simp
qed

lemma nb_all_subset_adds_only:
  assumes "adds_only eps s s'"
  shows "set (nb_all ep s) \<subseteq> set (nb_all ep s')"
proof -
  from assms obtain nr where "rows s' = rows s @ nr"
    unfolding adds_only_def by blast
  then show ?thesis by (auto simp: nb_all_def)
qed

lemma catalog_stages_result:
  "\<exists>s6. catalog_stages e a s0
       = (index_by_key Sites s6, index_by_key DeviceTypes s6, index_by_key DeviceRoles s6, s6)
     \<and> adds_only {Groups, Permissions, Manufacturers, DeviceRoles, DeviceTypes, Sites} s0 s6"
proof -
  let ?all = "{Groups, Permissions, Manufacturers, DeviceRoles, DeviceTypes, Sites}"
  define s1 where "s1 = snd (groups_stage e a s0)"
  define groups where "groups = fst (groups_stage e a s0)"
  define s2 where "s2 = snd (permissions_stage e a groups s1)"
  define s3 where "s3 = snd (manufacturers_stage e a s2)"
  define manufacturers where "manufacturers = fst (manufacturers_stage e a s2)"
  define s4 where "s4 = snd (roles_stage e a s3)"
  define s5 where "s5 = snd (device_types_stage e a manufacturers s4)"
  define s6 where "s6 = snd (sites_stage e a s5)"
  have f4: "fst (roles_stage e a s3) = index_by_key DeviceRoles s4"
    by (simp add: s4_def roles_stage_def Let_def)
  have f5: "fst (device_types_stage e a manufacturers s4) = index_by_key DeviceTypes s5"
    by (simp add: s5_def device_types_stage_def Let_def)
  have f6: "fst (sites_stage e a s5) = index_by_key Sites s6"
    by (simp add: s6_def sites_stage_def Let_def)
  have cat: "catalog_stages e a s0
      = (fst (sites_stage e a s5), fst (device_types_stage e a manufacturers s4),
         fst (roles_stage e a s3), s6)"
    unfolding catalog_stages_def s6_def s5_def s4_def s3_def s2_def s1_def groups_def
      manufacturers_def
    by (simp add: Let_def split_beta)
  have a1: "adds_only {Groups} s0 s1" unfolding s1_def by (rule adds_only_groups_stage)
  have a2: "adds_only {Permissions} s1 s2" unfolding s2_def by (rule adds_only_permissions_stage)
  have a3: "adds_only {Manufacturers} s2 s3" unfolding s3_def by (rule adds_only_manufacturers_stage)
  have a4: "adds_only {DeviceRoles} s3 s4" unfolding s4_def by (rule adds_only_roles_stage)
  have a5: "adds_only {DeviceTypes} s4 s5" unfolding s5_def by (rule adds_only_device_types_stage)
  have a6: "adds_only {Sites} s5 s6" unfolding s6_def by (rule adds_only_sites_stage)
  have b1: "adds_only ?all s0 s1" using a1 by (rule adds_only_mono) simp
  have b2: "adds_only ?all s1 s2" using a2 by (rule adds_only_mono) simp
  have b3: "adds_only ?all s2 s3" using a3 by (rule adds_only_mono) simp
  have b4: "adds_only ?all s3 s4" using a4 by (rule adds_only_mono) simp
  have b5: "adds_only ?all s4 s5" using a5 by (rule adds_only_mono) simp
  have b6: "adds_only ?all s5 s6" using a6 by (rule adds_only_mono) simp
  have all: "adds_only ?all s0 s6"
    using b1 b2 b3 b4 b5 b6 by (blast intro: adds_only_same)
  have dt: "index_by_key DeviceTypes s6 = index_by_key DeviceTypes s5"
    using a6 by (rule index_by_key_adds_only) simp
  have "index_by_key DeviceRoles s5 = index_by_key DeviceRoles s4"
    using a5 by (rule index_by_key_adds_only) simp
  moreover have "index_by_key DeviceRoles s6 = index_by_key DeviceRoles s5"
    using a6 by (rule index_by_key_adds_only) simp
  ultimately have rl: "index_by_key DeviceRoles s6 = index_by_key DeviceRoles s4" by simp
  have "catalog_stages e a s0
       = (index_by_key Sites s6, index_by_key DeviceTypes s6, index_by_key DeviceRoles s6, s6)"
    unfolding cat f4 f5 f6 dt rl ..
  with all show ?thesis by blast
qed

section \<open>The prefixes of the network map\<close>

lemma requests_vrf_stage [simp]: "requests (vrf_stage s) = requests s"
  by (simp add: vrf_stage_def)

lemma main_unfold:
  assumes "catalog_stages e a s0 = (sites, deviceTypes, roles, s6)"
  shows "main e a s0 = vrf_stage (snd (net_map_stage e a sites deviceTypes roles s6))"
  by (simp add: main_def assms)

lemma net_map_stage_Some:
  assumes "args_netMap a = Some netMapJson"
  shows "net_map_stage e a sites deviceTypes roles s
     = addresses_stage e netMapJson
         (devices_stage e netMapJson sites deviceTypes roles
            (snd (prefixes_stage e netMapJson sites s)))"
  by (simp add: net_map_stage_def assms)

lemma requests_prefixes_stage:
  "requests (snd (prefixes_stage e netMapJson sites s))
     = requests s @ map (\<lambda>segment. PrefixP (snd segment) (min_hash_value_by_value sites) (fst segment))
                      (List.map_filter segment_of netMapJson)"
  by (simp add: prefixes_stage_def Let_def requests_create_each)

text \<open>
  The requests for prefixes that one run of \<open>main\<close> sends: one for every segment of the
  network map, whatever the store holds.
\<close>

lemma main_prefix_requests:
  assumes "args_netMap a = Some netMapJson"
  shows "map key_of (filter (\<lambda>p. endpoint_of p = Prefixes) (requests (main e a s0)))
     = map key_of (filter (\<lambda>p. endpoint_of p = Prefixes) (requests s0))
       @ map snd (List.map_filter segment_of netMapJson)"
proof -
  obtain s6 where cat: "catalog_stages e a s0
       = (index_by_key Sites s6, index_by_key DeviceTypes s6, index_by_key DeviceRoles s6, s6)"
    and a6: "adds_only {Groups, Permissions, Manufacturers, DeviceRoles, DeviceTypes, Sites} s0 s6"
    using catalog_stages_result by blast
  let ?sites = "index_by_key Sites s6"
  let ?s7 = "snd (prefixes_stage e netMapJson ?sites s6)"
  let ?s8 = "devices_stage e netMapJson ?sites (index_by_key DeviceTypes s6) (index_by_key DeviceRoles s6) ?s7"
  let ?s9 = "snd (addresses_stage e netMapJson ?s8)"
  let ?f = "filter (\<lambda>p. endpoint_of p = Prefixes)"
  have m: "main e a s0 = vrf_stage ?s9"
    by (simp add: main_unfold [OF cat] net_map_stage_Some [OF assms])
  have "?f (requests ?s9) = ?f (requests ?s8)"
    using adds_only_addresses_stage by (rule requests_adds_only) simp
  also have "\<dots> = ?f (requests ?s7)"
    using adds_only_devices_stage by (rule requests_adds_only) simp
  also have "\<dots> = ?f (requests s6)
      @ map (\<lambda>segment. PrefixP (snd segment) (min_hash_value_by_value ?sites) (fst segment))
          (List.map_filter segment_of netMapJson)"
    by (simp add: requests_prefixes_stage filter_map comp_def)
  also have "?f (requests s6) = ?f (requests s0)"
    using a6 by (rule requests_adds_only) simp
  finally show ?thesis
    by (simp add: m comp_def)
qed

lemma vrf_stage_keeps_keys:
  "map (\<lambda>r. (fst r, endpoint_of (snd r), key_of (snd r))) (rows (vrf_stage s))
     = map (\<lambda>r. (fst r, endpoint_of (snd r), key_of (snd r))) (rows s)"
  unfolding vrf_stage_def
  by (simp add: comp_def) (auto split: payload.splits option.splits)

lemma keys_from_rows:
  "map (key_of \<circ> snd) (nb_all ep s)
     = map (\<lambda>t. snd (snd t)) (filter (\<lambda>t. fst (snd t) = ep)
         (map (\<lambda>r. (fst r, endpoint_of (snd r), key_of (snd r))) (rows s)))"
  by (simp add: nb_all_def filter_map comp_def)

lemma keys_vrf_stage:
  "map (key_of \<circ> snd) (nb_all ep (vrf_stage s)) = map (key_of \<circ> snd) (nb_all ep s)"
  by (simp only: keys_from_rows vrf_stage_keeps_keys)

lemma key_of_stored_prefix: "endpoint_of p = Prefixes \<Longrightarrow> key_of (stored p) = key_of p"
  by (cases p) simp_all

lemma keys_prefixes_stage:
  assumes "\<forall>s p. accepts e s p"
  shows "map (key_of \<circ> snd) (nb_all Prefixes (snd (prefixes_stage e netMapJson sites s)))
     = map (key_of \<circ> snd) (nb_all Prefixes s) @ map snd (List.map_filter segment_of netMapJson)"
proof -
  let ?ps = "map (\<lambda>segment. PrefixP (snd segment) (min_hash_value_by_value sites) (fst segment))
               (List.map_filter segment_of netMapJson)"
  let ?s' = "create_each e ?ps s"
  have "map snd (rows ?s') = map snd (rows s) @ map stored ?ps"
    using assms by (rule rows_create_each_accepting)
  then have "map key_of (filter (\<lambda>p. endpoint_of p = Prefixes) (map snd (rows ?s')))
      = map key_of (filter (\<lambda>p. endpoint_of p = Prefixes) (map snd (rows s)))
        @ map key_of (filter (\<lambda>p. endpoint_of p = Prefixes) (map stored ?ps))"
    by simp
  moreover have "map key_of (filter (\<lambda>p. endpoint_of p = Prefixes) (map stored ?ps))
      = map snd (List.map_filter segment_of netMapJson)"
    by (simp add: filter_map comp_def)
  moreover have "map key_of (filter (\<lambda>p. endpoint_of p = Prefixes) (map snd (rows t)))
      = map (key_of \<circ> snd) (nb_all Prefixes t)" for t
    by (simp add: nb_all_def filter_map comp_def)
  ultimately show ?thesis
    by (simp add: prefixes_stage_def Let_def)
qed

text \<open>
  With a store that accepts what it is sent, one run of \<open>main\<close> adds a prefix for every
  segment of the network map, whatever prefixes the store holds.
\<close>

lemma main_prefix_rows:
  assumes "\<forall>s p. accepts e s p" and "args_netMap a = Some netMapJson"
  shows "map (key_of \<circ> snd) (nb_all Prefixes (main e a s0))
     = map (key_of \<circ> snd) (nb_all Prefixes s0) @ map snd (List.map_filter segment_of netMapJson)"
proof -
  obtain s6 where cat: "catalog_stages e a s0
       = (index_by_key Sites s6, index_by_key DeviceTypes s6, index_by_key DeviceRoles s6, s6)"
    and a6: "adds_only {Groups, Permissions, Manufacturers, DeviceRoles, DeviceTypes, Sites} s0 s6"
    using catalog_stages_result by blast
  let ?sites = "index_by_key Sites s6"
  let ?s7 = "snd (prefixes_stage e netMapJson ?sites s6)"
  let ?s8 = "devices_stage e netMapJson ?sites (index_by_key DeviceTypes s6) (index_by_key DeviceRoles s6) ?s7"
  let ?s9 = "snd (addresses_stage e netMapJson ?s8)"
  have m: "main e a s0 = vrf_stage ?s9"
    by (simp add: main_unfold [OF cat] net_map_stage_Some [OF assms(2)])
  have "nb_all Prefixes ?s9 = nb_all Prefixes ?s8"
    using adds_only_addresses_stage by (rule nb_all_adds_only) simp
  also have "\<dots> = nb_all Prefixes ?s7"
    using adds_only_devices_stage by (rule nb_all_adds_only) simp
  finally have 1: "nb_all Prefixes ?s9 = nb_all Prefixes ?s7" .
  have 2: "nb_all Prefixes s6 = nb_all Prefixes s0"
    using a6 by (rule nb_all_adds_only) simp
  show ?thesis
    unfolding m keys_vrf_stage 1 keys_prefixes_stage [OF assms(1)] 2 ..
qed

lemma is_ip_network_lan: "is_ip_network (str ''10.0.0.0/24'')"
proof -
  have sp: "split_on 47 (str ''10.0.0.0/24'') = [str ''10.0.0.0'', str ''24'']"
    by (simp add: str_def)
  have ad: "IPv4Address (str ''10.0.0.0'') = Some 167772160"
    by (simp add: IPv4Address_def str_def parse_octet_def is_digit_def
        int_of_digits_def digit_value_def)
  have mk: "ipv4_make_netmask (str ''24'') = Some 24"
    by (simp add: ipv4_make_netmask_def prefix_from_prefix_string_def str_def is_digit_def
        int_of_digits_def digit_value_def)
  show ?thesis
    by (simp add: is_ip_network_def IPv4Network_def sp ad mk)
qed

lemma lan_segments:
  "List.map_filter segment_of
     [Obj (Some (str ''segment'')) (Some (str ''lan'')) (Some (str ''10.0.0.0/24''))]
   = [(str ''lan'', str ''10.0.0.0/24'')]"
proof -
  have "segment_of (Obj (Some (str ''segment'')) (Some (str ''lan'')) (Some (str ''10.0.0.0/24'')))
      = Some (str ''lan'', str ''10.0.0.0/24'')"
    using is_ip_network_lan by (simp add: str_def)
  then show ?thesis unfolding List.map_filter_def by simp
qed

lemma lan_args_netMap:
  "args_netMap lan_args
     = Some [Obj (Some (str ''segment'')) (Some (str ''lan'')) (Some (str ''10.0.0.0/24''))]"
  by (simp add: lan_args_def)

lemma accepting_all: "\<forall>s p. accepts accepting s p"
  by (simp add: accepting_def)

text \<open>
  Claim C2: the code at a failing input. The store holds the prefix \<open>10.0.0.0/24\<close> when
  \<open>main\<close> begins, so it is in the index \<open>prefixesPreExisting\<close>; the network map names
  this prefix as a segment. \<open>main\<close> sends the store a request to create it all the
  same, and the store, which accepts, then holds the prefix twice.
\<close>

theorem prefix_requested_although_present:
  "dict_has (index_by_key Prefixes store_with_prefix) (str ''10.0.0.0/24'')
   \<and> map key_of (filter (\<lambda>p. endpoint_of p = Prefixes)
         (requests (main accepting lan_args store_with_prefix)))
       = [str ''10.0.0.0/24'']
   \<and> map (key_of \<circ> snd) (nb_all Prefixes (main accepting lan_args store_with_prefix))
       = [str ''10.0.0.0/24'', str ''10.0.0.0/24'']"
proof -
  have all: "nb_all Prefixes store_with_prefix
      = [(4, PrefixP (str ''10.0.0.0/24'') (Some 1) (str ''lan''))]"
    by (simp add: store_with_prefix_def seeded_store_def empty_store_def nb_all_def)
  have 1: "dict_has (index_by_key Prefixes store_with_prefix) (str ''10.0.0.0/24'')"
    by (simp add: dict_has_def index_by_key_def all dict_of_def)
  have rq: "requests store_with_prefix = []"
    by (simp add: store_with_prefix_def seeded_store_def empty_store_def)
  have 2: "map key_of (filter (\<lambda>p. endpoint_of p = Prefixes)
         (requests (main accepting lan_args store_with_prefix))) = [str ''10.0.0.0/24'']"
    unfolding main_prefix_requests [OF lan_args_netMap] lan_segments rq by simp
  have 3: "map (key_of \<circ> snd) (nb_all Prefixes (main accepting lan_args store_with_prefix))
       = [str ''10.0.0.0/24'', str ''10.0.0.0/24'']"
    unfolding main_prefix_rows [OF accepting_all lan_args_netMap] lan_segments all by simp
  from 1 2 3 show ?thesis by blast
qed

text \<open>
  Claim C1: the code at a failing input. \<open>main\<close> is run twice with the same arguments,
  the second time on the store the first run left. The first run creates the prefix
  of the segment; the second run creates it again.
\<close>

theorem second_run_creates_prefix_again:
  "map (key_of \<circ> snd) (nb_all Prefixes seeded_store) = []
   \<and> map (key_of \<circ> snd) (nb_all Prefixes (main accepting lan_args seeded_store))
       = [str ''10.0.0.0/24'']
   \<and> map (key_of \<circ> snd)
         (nb_all Prefixes (main accepting lan_args (main accepting lan_args seeded_store)))
       = [str ''10.0.0.0/24'', str ''10.0.0.0/24'']"
proof -
  have 0: "nb_all Prefixes seeded_store = []"
    by (simp add: seeded_store_def empty_store_def nb_all_def)
  have 1: "map (key_of \<circ> snd) (nb_all Prefixes (main accepting lan_args seeded_store))
       = [str ''10.0.0.0/24'']"
    unfolding main_prefix_rows [OF accepting_all lan_args_netMap] lan_segments 0 by simp
  have 2: "map (key_of \<circ> snd)
         (nb_all Prefixes (main accepting lan_args (main accepting lan_args seeded_store)))
       = [str ''10.0.0.0/24'', str ''10.0.0.0/24'']"
    unfolding main_prefix_rows [OF accepting_all lan_args_netMap, of "main accepting lan_args seeded_store"]
      1 lan_segments by simp
  from 0 1 2 show ?thesis by simp
qed

section \<open>netbox\_init.py: what a created device refers to\<close>

text \<open>
  The values of a dictionary built by \<open>dict_of\<close> are values of the items, so a filler
  chosen by \<open>min_hash_value_by_value\<close> from an index is the identifier of a record of
  the indexed endpoint.
\<close>

lemma dict_set_values: "snd ` set (dict_set d k v) \<subseteq> insert v (snd ` set d)"
proof (induction d)
  case Nil
  then show ?case by simp
next
  case (Cons x d)
  obtain k' v' where x: "x = (k', v')" by (cases x)
  show ?case
  proof (cases "k' = k")
    case True
    then show ?thesis by (auto simp: x)
  next
    case False
    then show ?thesis using Cons.IH by (auto simp: x)
  qed
qed

lemma foldl_dict_set_values:
  "snd ` set (foldl (\<lambda>d (k, v). dict_set d k v) d xs) \<subseteq> snd ` set d \<union> snd ` set xs"
proof (induction xs arbitrary: d)
  case Nil
  then show ?case by simp
next
  case (Cons x xs)
  obtain k v where x: "x = (k, v)" by (cases x)
  have "snd ` set (foldl (\<lambda>d (k, v). dict_set d k v) (dict_set d k v) xs)
      \<subseteq> snd ` set (dict_set d k v) \<union> snd ` set xs"
    by (rule Cons.IH)
  also have "\<dots> \<subseteq> insert v (snd ` set d) \<union> snd ` set xs"
    using dict_set_values [of d k v] by blast
  finally show ?case by (auto simp: x)
qed

lemma dict_of_values: "snd ` set (dict_of xs) \<subseteq> snd ` set xs"
  using foldl_dict_set_values [of "[]" xs] by (simp add: dict_of_def)

lemma min_hash_value_by_value_in:
  assumes "min_hash_value_by_value d = Some v"
  shows "v \<in> snd ` set d"
proof -
  obtain vs where "map snd (dict_of (sort_key snd d)) = v # vs"
    using assms unfolding min_hash_value_by_value_def
    by (cases "map snd (dict_of (sort_key snd d))") simp_all
  then have "v \<in> set (map snd (dict_of (sort_key snd d)))"
    by (simp only: list.set_intros(1))
  then have "v \<in> snd ` set (dict_of (sort_key snd d))" by (simp only: set_map)
  then have "v \<in> snd ` set (sort_key snd d)"
    using dict_of_values [of "sort_key snd d"] by (rule rev_subsetD)
  then show ?thesis by (simp only: set_sort)
qed

lemma index_by_key_values: "snd ` set (index_by_key ep s) \<subseteq> fst ` set (nb_all ep s)"
proof -
  have "snd ` set (index_by_key ep s)
      \<subseteq> snd ` set (map (\<lambda>r. (key_of (snd r), fst r)) (nb_all ep s))"
    unfolding index_by_key_def by (rule dict_of_values)
  then have "snd ` set (index_by_key ep s)
      \<subseteq> (snd \<circ> (\<lambda>r. (key_of (snd r), fst r))) ` set (nb_all ep s)"
    by (simp add: image_comp)
  moreover have "snd \<circ> (\<lambda>r. (key_of (snd r), fst r)) = (fst :: nat \<times> payload \<Rightarrow> nat)"
    by (rule ext) simp
  ultimately show ?thesis by simp
qed

lemma filler_present:
  assumes "min_hash_value_by_value (index_by_key ep s) = Some x" and "adds_only eps s s'"
  shows "x \<in> fst ` set (nb_all ep s')"
proof -
  have "x \<in> snd ` set (index_by_key ep s)"
    by (rule min_hash_value_by_value_in [OF assms(1)])
  then have "x \<in> fst ` set (nb_all ep s)"
    using index_by_key_values [of ep s] by (rule rev_subsetD)
  then show ?thesis
    using image_mono [OF nb_all_subset_adds_only [OF assms(2), of ep], of fst] by (rule rev_subsetD)
qed

lemma device_row_kept:
  "(i, DeviceP n site dType role)
     \<in> set (map (\<lambda>r. case snd r of
                    PrefixP cidr site description \<Rightarrow>
                      (case dict_get pv (fst r) of
                         Some vrf \<Rightarrow>
                           if description = [] then (fst r, PrefixP cidr site vrf) else r
                       | None \<Rightarrow> r)
                  | _ \<Rightarrow> r) rs)
     \<longleftrightarrow> (i, DeviceP n site dType role) \<in> set rs"
proof (induction rs)
  case Nil
  then show ?case by simp
next
  case (Cons r rs)
  obtain j p where r: "r = (j, p)" by (cases r)
  have "(i, DeviceP n site dType role)
      = (case p of
           PrefixP cidr site description \<Rightarrow>
             (case dict_get pv j of
                Some vrf \<Rightarrow> if description = [] then (j, PrefixP cidr site vrf) else (j, p)
              | None \<Rightarrow> (j, p))
         | _ \<Rightarrow> (j, p))
      \<longleftrightarrow> (i, DeviceP n site dType role) = (j, p)"
  proof (cases p)
    case (PrefixP cidr st description)
    show ?thesis
    proof (cases "dict_get pv j")
      case None
      then show ?thesis by (simp add: PrefixP)
    next
      case (Some v)
      then show ?thesis by (simp add: PrefixP)
    qed
  qed simp_all
  then show ?case using Cons.IH unfolding r by (simp only: list.map list.set insert_iff fst_conv snd_conv)
qed

lemma device_rows_vrf_stage:
  "(i, DeviceP n site dType role) \<in> set (rows (vrf_stage s))
     \<longleftrightarrow> (i, DeviceP n site dType role) \<in> set (rows s)"
proof -
  have "rows (vrf_stage s) = map (\<lambda>r. case snd r of
                    PrefixP cidr site description \<Rightarrow>
                      (case dict_get (prefix_vrf s) (fst r) of
                         Some vrf \<Rightarrow>
                           if description = [] then (fst r, PrefixP cidr site vrf) else r
                       | None \<Rightarrow> r)
                  | _ \<Rightarrow> r) (rows s)"
    unfolding vrf_stage_def by simp
  then show ?thesis by (simp only: device_row_kept)
qed

lemma rows_adds_only:
  assumes "adds_only eps s s'" and "r \<in> set (rows s')" and "endpoint_of (snd r) \<notin> eps"
  shows "r \<in> set (rows s)"
proof -
  from assms(1) obtain new_rows where n: "rows s' = rows s @ new_rows"
      "list_all (\<lambda>r. endpoint_of (snd r) \<in> eps) new_rows"
    unfolding adds_only_def by blast
  from n(2) assms(3) have "r \<notin> set new_rows" by (auto simp: list_all_iff)
  with assms(2) n(1) show ?thesis by simp
qed

lemma rows_subset_adds_only:
  assumes "adds_only eps s s'"
  shows "set (rows s) \<subseteq> set (rows s')"
  using assms unfolding adds_only_def by auto

lemma rows_devices_stage:
  assumes "r \<in> set (rows (devices_stage e netMapJson sites deviceTypes roles s))"
    and "r \<notin> set (rows s)" and "endpoint_of (snd r) = Devices"
  shows "\<exists>n. snd r = DeviceP n (min_hash_value_by_value sites)
                  (min_hash_value_by_value deviceTypes) (min_hash_value_by_value roles)"
proof -
  obtain new where new: "rows (devices_stage e netMapJson sites deviceTypes roles s) = rows s @ new"
    "\<forall>r \<in> set new. (\<exists>n. snd r = DeviceP n (min_hash_value_by_value sites)
                  (min_hash_value_by_value deviceTypes) (min_hash_value_by_value roles))
            \<or> endpoint_of (snd r) = Interfaces"
    unfolding devices_stage_def Let_def
    using rows_devices_loop [of e "min_hash_value_by_value sites" "min_hash_value_by_value deviceTypes"
        "min_hash_value_by_value roles"
        "filter (\<lambda>host. \<not> dict_has (index_by_key Devices s) (fst host))
              (List.map_filter host_of netMapJson)" s]
    by (elim exE conjE) 
  from assms(1,2) new(1) have "r \<in> set new" by simp
  with new(2) assms(3) show ?thesis by auto
qed

lemma catalog_stages_indexes:
  assumes "catalog_stages e a s0 = (sites, deviceTypes, roles, s6)"
  shows "sites = index_by_key Sites s6" "deviceTypes = index_by_key DeviceTypes s6"
    "roles = index_by_key DeviceRoles s6"
  using catalog_stages_result [of e a s0] assms by auto

text \<open>
  A run that names no manufacturer, role, device type or site creates groups and
  permissions only; and an accepted device is a record of the store after its host.
\<close>

lemma catalog_stages_names_nothing:
  assumes "args_manufacturers a = []" "args_roles a = []" "args_deviceTypes a = []"
    "args_netboxSites a = []"
  shows "\<exists>s6. catalog_stages e a s0
       = (index_by_key Sites s0, index_by_key DeviceTypes s0, index_by_key DeviceRoles s0, s6)
     \<and> adds_only {Groups, Permissions} s0 s6"
proof -
  define s1 where "s1 = snd (groups_stage e a s0)"
  define groups where "groups = fst (groups_stage e a s0)"
  define s2 where "s2 = snd (permissions_stage e a groups s1)"
  have m: "manufacturers_stage e a s2 = (index_by_key Manufacturers s2, s2)"
    by (simp add: manufacturers_stage_def assms)
  have r: "roles_stage e a s2 = (index_by_key DeviceRoles s2, s2)"
    by (simp add: roles_stage_def assms)
  have d: "device_types_stage e a (index_by_key Manufacturers s2) s2 = (index_by_key DeviceTypes s2, s2)"
    by (simp add: device_types_stage_def assms)
  have s: "sites_stage e a s2 = (index_by_key Sites s2, s2)"
    by (simp add: sites_stage_def assms)
  have g: "groups_stage e a s0 = (groups, s1)" by (simp add: groups_def s1_def)
  have cat: "catalog_stages e a s0
      = (index_by_key Sites s2, index_by_key DeviceTypes s2, index_by_key DeviceRoles s2, s2)"
    unfolding catalog_stages_def g
    by (simp only: Let_def prod.case s2_def [symmetric] m r d s)
  have a1: "adds_only {Groups} s0 s1" unfolding s1_def by (rule adds_only_groups_stage)
  have a2: "adds_only {Permissions} s1 s2" unfolding s2_def by (rule adds_only_permissions_stage)
  have a: "adds_only ({Groups} \<union> {Permissions}) s0 s2" using a1 a2 by (rule adds_only_trans)
  then have a': "adds_only {Groups, Permissions} s0 s2" by (rule adds_only_mono) simp
  have "index_by_key Sites s2 = index_by_key Sites s0"
    using a' by (rule index_by_key_adds_only) simp
  moreover have "index_by_key DeviceTypes s2 = index_by_key DeviceTypes s0"
    using a' by (rule index_by_key_adds_only) simp
  moreover have "index_by_key DeviceRoles s2 = index_by_key DeviceRoles s0"
    using a' by (rule index_by_key_adds_only) simp
  ultimately have "catalog_stages e a s0
       = (index_by_key Sites s0, index_by_key DeviceTypes s0, index_by_key DeviceRoles s0, s2)"
    unfolding cat by (simp only:)
  with a' show ?thesis by blast
qed

lemma create_host_device_row:
  assumes "accepts e s (DeviceP (fst host) site dType role)"
  shows "(next_id s, DeviceP (fst host) site dType role)
           \<in> set (rows (create_host e site dType role host s))"
proof -
  define s1 where "s1 = snd (nb_create e (DeviceP (fst host) site dType role) s)"
  have r1: "(next_id s, DeviceP (fst host) site dType role) \<in> set (rows s1)"
    unfolding s1_def rows_nb_create using assms by simp
  have sub: "set (rows s1) \<subseteq> set (rows (snd (nb_create e p s1)))" for p
    unfolding rows_nb_create by simp
  show ?thesis
  proof (cases "is_ip_address (snd host)")
    case True
    then show ?thesis
      unfolding create_host_accepted [OF assms] s1_def [symmetric] using r1 sub by auto
  next
    case False
    show ?thesis
    proof (cases "re_match_mac (lower (snd host))")
      case True
      with False show ?thesis
        unfolding create_host_accepted [OF assms] s1_def [symmetric] using r1 sub by auto
    next
      case no: False
      with False show ?thesis
        unfolding create_host_accepted [OF assms] s1_def [symmetric] using r1 by simp
    qed
  qed
qed

lemma host_args_netMap:
  "args_netMap host_args
     = Some [Obj (Some (str ''host'')) (Some (str ''h1'')) (Some (str ''10.0.0.5''))]"
  by (simp add: host_args_def)

lemma seeded_fillers:
  "min_hash_value_by_value (index_by_key Sites seeded_store) = Some 1"
  "min_hash_value_by_value (index_by_key DeviceTypes seeded_store) = Some 2"
  "min_hash_value_by_value (index_by_key DeviceRoles seeded_store) = Some 3"
proof -
  have "nb_all Sites seeded_store = [(1, SiteP (str ''HQ'') (str ''hq''))]"
    "nb_all DeviceTypes seeded_store = [(2, DeviceTypeP (str ''Model-X'') (str ''model-x'') None)]"
    "nb_all DeviceRoles seeded_store = [(3, RoleP (str ''Sensor'') (str ''sensor'') True (str ''336699''))]"
    by (simp_all add: seeded_store_def empty_store_def nb_all_def)
  then show "min_hash_value_by_value (index_by_key Sites seeded_store) = Some 1"
    "min_hash_value_by_value (index_by_key DeviceTypes seeded_store) = Some 2"
    "min_hash_value_by_value (index_by_key DeviceRoles seeded_store) = Some 3"
    by (simp_all add: index_by_key_single min_hash_value_by_value_single)
qed

text \<open>
  Claim C7. The run is \<open>main\<close> with a network map; \<open>s_dev\<close> is the store when the
  device stage begins, after the stages of the catalogue and the prefixes. A device
  record of the final store that \<open>s_dev\<close> does not hold was created by the device
  stage: its site, device type and role are the fillers taken from the indexes that the
  earlier stages handed on, and each of them that is not \<open>None\<close> is the identifier
  of a site, device type or role record that \<open>s_dev\<close> holds.
\<close>

theorem device_references_present:
  assumes "catalog_stages e a s0 = (sites, deviceTypes, roles, s6)"
    and "args_netMap a = Some netMapJson"
    and "s_dev = snd (prefixes_stage e netMapJson sites s6)"
    and "(i, DeviceP n site dType role) \<in> set (rows (main e a s0))"
    and "(i, DeviceP n site dType role) \<notin> set (rows s_dev)"
  shows "site = min_hash_value_by_value sites
       \<and> dType = min_hash_value_by_value deviceTypes
       \<and> role = min_hash_value_by_value roles
       \<and> (case site of None \<Rightarrow> True | Some x \<Rightarrow> x \<in> fst ` set (nb_all Sites s_dev))
       \<and> (case dType of None \<Rightarrow> True | Some x \<Rightarrow> x \<in> fst ` set (nb_all DeviceTypes s_dev))
       \<and> (case role of None \<Rightarrow> True | Some x \<Rightarrow> x \<in> fst ` set (nb_all DeviceRoles s_dev))"
proof -
  let ?r = "(i, DeviceP n site dType role)"
  define s_d where "s_d = devices_stage e netMapJson sites deviceTypes roles s_dev"
  define s_a where "s_a = snd (addresses_stage e netMapJson s_d)"
  have m: "main e a s0 = vrf_stage s_a"
    unfolding main_unfold [OF assms(1)] net_map_stage_Some [OF assms(2)] s_a_def s_d_def assms(3)
    by (rule refl)
  have ep: "endpoint_of (snd ?r) = Devices" by simp
  have in_a: "?r \<in> set (rows s_a)"
    using assms(4) unfolding m by (simp only: device_rows_vrf_stage)
  have "adds_only {IPAddresses} s_d s_a"
    unfolding s_a_def by (rule adds_only_addresses_stage)
  then have "?r \<in> set (rows s_d)"
    using in_a by (rule rows_adds_only) simp
  then have "\<exists>n'. snd ?r = DeviceP n' (min_hash_value_by_value sites)
                  (min_hash_value_by_value deviceTypes) (min_hash_value_by_value roles)"
    unfolding s_d_def using assms(5) ep by (rule rows_devices_stage)
  then have refs: "site = min_hash_value_by_value sites"
      "dType = min_hash_value_by_value deviceTypes" "role = min_hash_value_by_value roles"
    by simp_all
  have ao: "adds_only {Prefixes} s6 s_dev"
    unfolding assms(3) by (rule adds_only_prefixes_stage)
  note idx = catalog_stages_indexes [OF assms(1)]
  have "x \<in> fst ` set (nb_all Sites s_dev)" if "site = Some x" for x
    using that refs(1) idx(1) filler_present [OF _ ao, of Sites x] by simp
  moreover have "x \<in> fst ` set (nb_all DeviceTypes s_dev)" if "dType = Some x" for x
    using that refs(2) idx(2) filler_present [OF _ ao, of DeviceTypes x] by simp
  moreover have "x \<in> fst ` set (nb_all DeviceRoles s_dev)" if "role = Some x" for x
    using that refs(3) idx(3) filler_present [OF _ ao, of DeviceRoles x] by simp
  ultimately show ?thesis using refs by (simp split: option.split)
qed

theorem device_references_present_witness:
  "(\<exists>i. (i, DeviceP (str ''h1'') (Some 1) (Some 2) (Some 3))
          \<in> set (rows (main accepting host_args seeded_store))
        \<and> (i, DeviceP (str ''h1'') (Some 1) (Some 2) (Some 3))
          \<notin> set (rows (snd (snd (snd (catalog_stages accepting host_args seeded_store))))))
   \<and> 1 \<in> fst ` set (nb_all Sites (snd (snd (snd (catalog_stages accepting host_args seeded_store)))))
   \<and> 2 \<in> fst ` set (nb_all DeviceTypes
                        (snd (snd (snd (catalog_stages accepting host_args seeded_store)))))
   \<and> 3 \<in> fst ` set (nb_all DeviceRoles
                        (snd (snd (snd (catalog_stages accepting host_args seeded_store)))))"
proof -
  let ?map = "[Obj (Some (str ''host'')) (Some (str ''h1'')) (Some (str ''10.0.0.5''))]"
  let ?sites = "index_by_key Sites seeded_store"
  let ?types = "index_by_key DeviceTypes seeded_store"
  let ?roles = "index_by_key DeviceRoles seeded_store"
  let ?dev = "DeviceP (str ''h1'') (Some 1) (Some 2) (Some 3)"
  have names: "args_manufacturers host_args = []" "args_roles host_args = []"
    "args_deviceTypes host_args = []" "args_netboxSites host_args = []"
    by (simp_all add: host_args_def no_args_def)
  obtain s6 where cat: "catalog_stages accepting host_args seeded_store = (?sites, ?types, ?roles, s6)"
    and ao: "adds_only {Groups, Permissions} seeded_store s6"
    using catalog_stages_names_nothing [OF names, of accepting seeded_store] by blast
  have s6: "snd (snd (snd (catalog_stages accepting host_args seeded_store))) = s6"
    unfolding cat by simp
  have seg: "List.map_filter segment_of ?map = []"
    by (simp add: List.map_filter_def str_def)
  have host: "host_of (Obj (Some (str ''host'')) (Some (str ''h1'')) (Some (str ''10.0.0.5'')))
      = Some (str ''h1'', str ''10.0.0.5'')"
    by (simp add: str_def)
  have s_dev: "snd (prefixes_stage accepting ?map ?sites s6) = s6"
    unfolding prefixes_stage_def seg by (simp add: Let_def)
  have "nb_all Devices s6 = nb_all Devices seeded_store"
    using ao by (rule nb_all_adds_only) simp
  then have "nb_all Devices s6 = []"
    by (simp add: seeded_store_def empty_store_def nb_all_def)
  then have none: "\<not> dict_has (index_by_key Devices s6) (str ''h1'')"
    by (simp add: index_by_key_empty dict_has_def)
  define s_d where "s_d = devices_stage accepting ?map ?sites ?types ?roles s6"
  have "s_d = create_host accepting (Some 1) (Some 2) (Some 3) (str ''h1'', str ''10.0.0.5'')
                (devices_stage accepting [] ?sites ?types ?roles s6)"
    unfolding s_d_def
    using devices_stage_host [OF host none, of accepting "[]" ?sites ?types ?roles]
    by (simp only: append_Nil seeded_fillers)
  moreover have "devices_stage accepting [] ?sites ?types ?roles s6 = s6"
    by (simp add: devices_stage_def List.map_filter_def)
  ultimately have sd: "s_d = create_host accepting (Some 1) (Some 2) (Some 3)
      (str ''h1'', str ''10.0.0.5'') s6"
    by (simp only:)
  have "(next_id s6, DeviceP (fst (str ''h1'', str ''10.0.0.5'')) (Some 1) (Some 2) (Some 3))
      \<in> set (rows s_d)"
    unfolding sd by (rule create_host_device_row) (simp add: accepting_def)
  then have in_d: "(next_id s6, ?dev) \<in> set (rows s_d)" by (simp only: fst_conv)
  have "adds_only {IPAddresses} s_d (snd (addresses_stage accepting ?map s_d))"
    by (rule adds_only_addresses_stage)
  then have "(next_id s6, ?dev) \<in> set (rows (snd (addresses_stage accepting ?map s_d)))"
    using in_d rows_subset_adds_only by blast
  then have "(next_id s6, ?dev) \<in> set (rows (vrf_stage (snd (addresses_stage accepting ?map s_d))))"
    by (simp only: device_rows_vrf_stage)
  then have in_main: "(next_id s6, ?dev) \<in> set (rows (main accepting host_args seeded_store))"
    unfolding main_unfold [OF cat] net_map_stage_Some [OF host_args_netMap] s_d_def s_dev .
  have notin: "(next_id s6, ?dev) \<notin> set (rows s6)"
  proof
    assume "(next_id s6, ?dev) \<in> set (rows s6)"
    with ao have "(next_id s6, ?dev) \<in> set (rows seeded_store)"
      by (rule rows_adds_only) simp
    then show False by (simp add: seeded_store_def empty_store_def)
  qed
  have notin': "(next_id s6, ?dev) \<notin> set (rows (snd (prefixes_stage accepting ?map ?sites s6)))"
    unfolding s_dev by (rule notin)
  have "Some 1 = min_hash_value_by_value ?sites
       \<and> Some 2 = min_hash_value_by_value ?types
       \<and> Some 3 = min_hash_value_by_value ?roles
       \<and> (case Some 1 of None \<Rightarrow> True
           | Some x \<Rightarrow> x \<in> fst ` set (nb_all Sites (snd (prefixes_stage accepting ?map ?sites s6))))
       \<and> (case Some 2 of None \<Rightarrow> True
           | Some x \<Rightarrow> x \<in> fst ` set (nb_all DeviceTypes (snd (prefixes_stage accepting ?map ?sites s6))))
       \<and> (case Some 3 of None \<Rightarrow> True
           | Some x \<Rightarrow> x \<in> fst ` set (nb_all DeviceRoles (snd (prefixes_stage accepting ?map ?sites s6))))"
    using device_references_present [OF cat host_args_netMap refl in_main notin'] .
  then have "1 \<in> fst ` set (nb_all Sites s6) \<and> 2 \<in> fst ` set (nb_all DeviceTypes s6)
      \<and> 3 \<in> fst ` set (nb_all DeviceRoles s6)"
    unfolding s_dev by simp
  with in_main notin show ?thesis unfolding s6 by blast
qed

end
